theory Spec2Isabelle
  imports Complex_Main "HOL-Library.Sublist"
begin

section \<open>Strings\<close>

text \<open>
  A JavaScript string is modelled as a \<^typ>\<open>string\<close>: one \<^typ>\<open>char\<close> per code unit
  (code units below 256).  \<open>s.startsWith(p)\<close> and \<open>s.includes(p)\<close> (here \<open>includes_str\<close>) are the two string
  tests the scanner uses outside regular expressions.
\<close>

definition startsWith :: "string \<Rightarrow> string \<Rightarrow> bool" where
  "startsWith s p = (take (length p) s = p)"

fun includes_str :: "string \<Rightarrow> string \<Rightarrow> bool" where
  "includes_str [] p = (p = [])"
| "includes_str (c # cs) p = (startsWith (c # cs) p \<or> includes_str cs p)"

section \<open>Server configurations and package identity (cvecheck.js)\<close>

text \<open>
  A server entry of the configuration file.  Every field may be absent in the JSON;
  the code replaces an absent \<open>args\<close> by \<open>[]\<close> and an absent \<open>command\<close> by \<open>''\<close>.
  The environment keeps its entries in insertion order, as \<open>Object.entries\<close> reads them.
\<close>

record serverConfig =
  command :: "string option"
  args :: "string list option"
  env :: "(string \<times> string) list option"
  transport :: "string option"

text \<open>\<open>serverConfig.args || []\<close> and \<open>serverConfig.command || ''\<close>.\<close>

definition args_of :: "serverConfig \<Rightarrow> string list" where
  "args_of serverConfig = (case args serverConfig of None \<Rightarrow> [] | Some a \<Rightarrow> a)"

definition command_of :: "serverConfig \<Rightarrow> string" where
  "command_of serverConfig = (case command serverConfig of None \<Rightarrow> [] | Some c \<Rightarrow> c)"

text \<open>The \<open>for\<close> loop over \<open>args\<close> in \<open>extractPackageName\<close>: its \<open>return\<close> is \<open>Some\<close>,
  running off the end of the array is \<open>None\<close>.\<close>

fun extractPackageName_loop :: "string list \<Rightarrow> string option" where
  "extractPackageName_loop [] = None"
| "extractPackageName_loop (arg # rest) =
     (if startsWith arg ''-'' then extractPackageName_loop rest
      else if startsWith arg ''@'' \<or> \<not> includes_str arg ''/'' then Some arg
      else extractPackageName_loop rest)"

definition extractPackageName :: "serverConfig \<Rightarrow> string option" where
  "extractPackageName serverConfig =
     (case (if command_of serverConfig = ''npx'' \<or> command_of serverConfig = ''uvx''
            then extractPackageName_loop (args_of serverConfig) else None) of
        Some arg \<Rightarrow> Some arg
      | None \<Rightarrow>
          if command_of serverConfig = ''node'' \<or> command_of serverConfig = ''python''
             \<or> command_of serverConfig = ''python3'' then None
          else if startsWith (command_of serverConfig) ''mcp-''
             \<or> startsWith (command_of serverConfig) ''@'' then Some (command_of serverConfig)
          else None)"

section \<open>Findings, the severity histogram and the exit policy (index.js, output.js)\<close>

text \<open>
  A finding as \<open>scanConfig\<close> builds it.  Severities are JavaScript strings; the field
  \<open>type\<close> of the source is \<open>ftype\<close> here and the optional \<open>value\<close> is \<open>fvalue\<close>.
\<close>

record finding =
  server :: string
  package :: "string option"
  ftype :: string
  severity :: string
  title :: string
  detail :: string
  advice :: string
  fvalue :: "string option"

text \<open>
  \<open>const bySeverity = { critical: 0, high: 0, medium: 0, low: 0 }\<close>: the object has
  these four own properties and no \<open>info\<close> property.
\<close>

record bySeverity =
  critical :: nat
  high :: nat
  medium :: nat
  low :: nat

text \<open>
  One round of \<open>if (bySeverity[f.severity] !== undefined) bySeverity[f.severity]++\<close>.
  A severity that names none of the four counters reads \<open>undefined\<close> and is skipped
  (a name inherited from \<open>Object.prototype\<close> passes the test but only creates a new
  own property; the four counters stay as they are).
\<close>

definition count_finding :: "finding \<Rightarrow> bySeverity \<Rightarrow> bySeverity" where
  "count_finding f h =
     (if severity f = ''critical'' then h\<lparr>critical := critical h + 1\<rparr>
      else if severity f = ''high'' then h\<lparr>high := high h + 1\<rparr>
      else if severity f = ''medium'' then h\<lparr>medium := medium h + 1\<rparr>
      else if severity f = ''low'' then h\<lparr>low := low h + 1\<rparr>
      else h)"

definition aggregate :: "finding list \<Rightarrow> bySeverity" where
  "aggregate totalFindings =
     fold count_finding totalFindings \<lparr>critical = 0, high = 0, medium = 0, low = 0\<rparr>"

text \<open>The exit code \<open>main\<close> ends with, and the \<open>pass\<close> flag of \<open>generateJSONReport\<close>.\<close>

definition exit_code :: "bySeverity \<Rightarrow> nat" where
  "exit_code h = (if critical h > 0 then 2 else if high h > 0 then 1 else 0)"

definition report_pass :: "bySeverity \<Rightarrow> bool" where
  "report_pass h = (critical h = 0 \<and> high h = 0)"

section \<open>Levenshtein distance (typosquat.js)\<close>

text \<open>
  \<open>levenshtein\<close> fills an \<open>(m+1) \<times> (n+1)\<close> array of arrays.  \<open>put dp i j v\<close> is the
  assignment \<open>dp[i][j] = v\<close>; every index the loops use is inside the array.
\<close>

definition put :: "nat list list \<Rightarrow> nat \<Rightarrow> nat \<Rightarrow> nat \<Rightarrow> nat list list" where
  "put dp i j v = dp[i := (dp ! i)[j := v]]"

text \<open>The right-hand side of the assignment in the inner loop.\<close>

definition cell :: "'a list \<Rightarrow> 'a list \<Rightarrow> nat list list \<Rightarrow> nat \<Rightarrow> nat \<Rightarrow> nat" where
  "cell a b dp i j =
     (if a ! (i - 1) = b ! (j - 1) then dp ! (i - 1) ! (j - 1)
      else 1 + min (dp ! (i - 1) ! j) (min (dp ! i ! (j - 1)) (dp ! (i - 1) ! (j - 1))))"

definition levenshtein :: "'a list \<Rightarrow> 'a list \<Rightarrow> nat" where
  "levenshtein a b =
     (let m = length a; n = length b;
          dp0 = replicate (m + 1) (replicate (n + 1) 0);
          dp1 = fold (\<lambda>i dp. put dp i 0 i) [0..<m + 1] dp0;
          dp2 = fold (\<lambda>j dp. put dp 0 j j) [0..<n + 1] dp1;
          dp3 = fold (\<lambda>i dp. fold (\<lambda>j dp. put dp i j (cell a b dp i j)) [1..<n + 1] dp)
                  [1..<m + 1] dp2
      in dp3 ! m ! n)"

text \<open>
  The reference: the unrestricted edit distance with unit-cost insertion, deletion and
  substitution, as the full three-way recurrence (no shortcut for equal characters).
\<close>

fun edit_distance :: "'a list \<Rightarrow> 'a list \<Rightarrow> nat" where
  "edit_distance [] ys = length ys"
| "edit_distance (x # xs) [] = Suc (length xs)"
| "edit_distance (x # xs) (y # ys) =
     min (min (edit_distance xs (y # ys) + 1) (edit_distance (x # xs) ys + 1))
       (edit_distance xs ys + (if x = y then 0 else 1))"

text \<open>
  For the correctness proof of the table: \<open>D a b i j\<close> is the reference distance of the
  prefixes of lengths \<open>i\<close> and \<open>j\<close>; \<open>shape\<close> says that the array has \<open>m + 1\<close> rows of
  \<open>n + 1\<close> cells; \<open>filled a b k l\<close> says that the border, the rows before \<open>k\<close> and the
  cells of row \<open>k\<close> before column \<open>l\<close> hold their \<open>D\<close>.
\<close>

definition D :: "'a list \<Rightarrow> 'a list \<Rightarrow> nat \<Rightarrow> nat \<Rightarrow> nat" where
  "D a b i j = edit_distance (take i a) (take j b)"

definition shape :: "nat \<Rightarrow> nat \<Rightarrow> nat list list \<Rightarrow> bool" where
  "shape m n dp \<longleftrightarrow> length dp = m + 1 \<and> (\<forall>i \<le> m. length (dp ! i) = n + 1)"

definition filled :: "'a list \<Rightarrow> 'a list \<Rightarrow> nat \<Rightarrow> nat \<Rightarrow> nat list list \<Rightarrow> bool" where
  "filled a b k l dp \<longleftrightarrow>
     shape (length a) (length b) dp \<and>
     (\<forall>i \<le> length a. dp ! i ! 0 = i) \<and>
     (\<forall>j \<le> length b. dp ! 0 ! j = j) \<and>
     (\<forall>i j. 1 \<le> i \<and> i < k \<and> 1 \<le> j \<and> j \<le> length b \<longrightarrow> dp ! i ! j = D a b i j) \<and>
     (\<forall>j. 1 \<le> j \<and> j < l \<longrightarrow> dp ! k ! j = D a b k j)"

section \<open>Static tables (data/vulndb.js)\<close>

text \<open>
  The em dash (U+2014) in the reason texts is beyond the characters a \<^typ>\<open>string\<close>
  literal can hold; it is kept as the three bytes of its UTF-8 encoding.  No length of a
  reason text is ever taken.
\<close>

definition emdash :: string where
  "emdash = [CHR 0xE2, CHR 0x80, CHR 0x94]"

definition KNOWN_LEGITIMATE_PACKAGES :: "string list" where
  "KNOWN_LEGITIMATE_PACKAGES = [     ''@anthropic/mcp-server-git'',
     ''@anthropic/mcp-server-github'',
     ''@anthropic/mcp-server-slack'',
     ''@anthropic/mcp-server-memory'',
     ''@anthropic/mcp-server-puppeteer'',
     ''@anthropic/mcp-server-brave-search'',
     ''@anthropic/mcp-server-fetch'',
     ''@anthropic/mcp-server-everart'',
     ''@anthropic/mcp-server-sequentialthinking'',
     ''@modelcontextprotocol/server-filesystem'',
     ''@modelcontextprotocol/server-postgres'',
     ''@modelcontextprotocol/server-github'',
     ''@modelcontextprotocol/server-gitlab'',
     ''@modelcontextprotocol/server-slack'',
     ''@modelcontextprotocol/server-google-maps'',
     ''@modelcontextprotocol/server-memory'',
     ''@modelcontextprotocol/server-puppeteer'',
     ''@modelcontextprotocol/server-brave-search'',
     ''@modelcontextprotocol/server-fetch'',
     ''@modelcontextprotocol/server-sqlite'',
     ''@modelcontextprotocol/server-everything'',
     ''@microsoft/markitdown-mcp'',
     ''mcp-server-github'',
     ''mcp-server-stripe'',
     ''mcp-server-linear'',
     ''mcp-server-notion'',
     ''mcp-server-obsidian'',
     ''mcp-server-postgres'',
     ''mcp-server-sqlite'',
     ''mcp-server-docker'',
     ''mcp-server-kubernetes'',
     ''mcp-server-aws'',
     ''mcp-server-gcp'',
     ''mcp-server-azure'',
     ''mcp-server-browser'',
     ''mcp-server-playwright'',
     ''mcp-server-firecrawl'',
     ''mcp-server-raygun'',
     ''mcp-server-sentry'',
     ''mcp-server-datadog'',
     ''mcp-server-supabase'',
     ''mcp-server-prisma'',
     ''mcp-server-redis'',
     ''mcp-server-mongodb'']"

record malicious =
  m_name :: string
  impersonates :: string
  reason :: string
  m_severity :: string

definition KNOWN_MALICIOUS :: "malicious list" where
  "KNOWN_MALICIOUS = [     \<lparr>m_name = ''mcp-servr-github'', impersonates = ''mcp-server-github'',
      reason = ''Typosquat '' @ emdash @ '' contains credential-harvesting payload'',
      m_severity = ''critical''\<rparr>,
     \<lparr>m_name = ''mcp-server-githuh'', impersonates = ''mcp-server-github'',
      reason = ''Typosquat '' @ emdash @ '' exfiltrates environment variables on install'',
      m_severity = ''critical''\<rparr>,
     \<lparr>m_name = ''mcp-server-giithub'', impersonates = ''mcp-server-github'',
      reason = ''Typosquat '' @ emdash @ '' obfuscated reverse shell in postinstall'',
      m_severity = ''critical''\<rparr>,
     \<lparr>m_name = ''@anthropic/mcp-server-glt'', impersonates = ''@anthropic/mcp-server-git'',
      reason = ''Typosquat '' @ emdash @ '' reads .git/config and SSH keys'',
      m_severity = ''critical''\<rparr>,
     \<lparr>m_name = ''mcp-server-postgress'', impersonates = ''mcp-server-postgres'',
      reason = ''Typosquat '' @ emdash @ '' intercepts database credentials'',
      m_severity = ''critical''\<rparr>,
     \<lparr>m_name = ''mcp-server-posgres'', impersonates = ''mcp-server-postgres'',
      reason = ''Typosquat '' @ emdash @ '' backdoored fork with data exfiltration'',
      m_severity = ''critical''\<rparr>,
     \<lparr>m_name = ''mcp-server-firecrawll'', impersonates = ''mcp-server-firecrawl'',
      reason = ''Typosquat '' @ emdash @ '' exfiltrates crawled content to C2 server'',
      m_severity = ''critical''\<rparr>,
     \<lparr>m_name = ''mcp-server-notlon'', impersonates = ''mcp-server-notion'',
      reason = ''Typosquat '' @ emdash @ '' steals Notion integration tokens'',
      m_severity = ''critical''\<rparr>,
     \<lparr>m_name = ''mcp-server-slqite'', impersonates = ''mcp-server-sqlite'',
      reason = ''Typosquat '' @ emdash @ '' copies database files to external endpoint'',
      m_severity = ''critical''\<rparr>,
     \<lparr>m_name = ''mcp-server-browsre'', impersonates = ''mcp-server-browser'',
      reason = ''Typosquat '' @ emdash @ '' injects credential-stealing scripts into browsed pages'',
      m_severity = ''critical''\<rparr>,
     \<lparr>m_name = ''@anthroplc/mcp-server-git'', impersonates = ''@anthropic/mcp-server-git'',
      reason = ''Scope typosquat '' @ emdash @ '' impersonates @anthropic scope (l vs i)'',
      m_severity = ''critical''\<rparr>,
     \<lparr>m_name = ''@anthropic-ai/mcp-server-git'', impersonates = ''@anthropic/mcp-server-git'',
      reason = ''Scope typosquat '' @ emdash @ '' fake @anthropic-ai scope'',
      m_severity = ''critical''\<rparr>,
     \<lparr>m_name = ''@modelcontextprotoco1/server-filesystem'', impersonates = ''@modelcontextprotocol/server-filesystem'',
      reason = ''Scope typosquat '' @ emdash @ '' l replaced with 1'',
      m_severity = ''critical''\<rparr>]"

section \<open>Typosquat detection (typosquat.js)\<close>

text \<open>\<open>s.replace(p, r)\<close> with a string pattern: the first occurrence of \<open>p\<close> is replaced.\<close>

fun replace_first :: "string \<Rightarrow> string \<Rightarrow> string \<Rightarrow> string" where
  "replace_first [] p r = (if p = [] then r else [])"
| "replace_first (c # cs) p r =
     (if startsWith (c # cs) p then r @ drop (length p) (c # cs)
      else c # replace_first cs p r)"

definition CONFUSABLE_PAIRS :: "(string \<times> string) list" where
  "CONFUSABLE_PAIRS =
     [(''l'', ''1''), (''l'', ''i''), (''0'', ''o''), (''rn'', ''m''),
      (''vv'', ''w''), (''cl'', ''d''), (''nn'', ''m''), (''ii'', ''u'')]"

fun hasConfusableSubstitution_loop :: "(string \<times> string) list \<Rightarrow> string \<Rightarrow> string \<Rightarrow> bool" where
  "hasConfusableSubstitution_loop [] name legitimate = False"
| "hasConfusableSubstitution_loop ((fake, real') # rest) name legitimate =
     (if includes_str name fake \<and> replace_first name fake real' = legitimate then True
      else if includes_str name real' \<and> replace_first name real' fake = legitimate then True
      else hasConfusableSubstitution_loop rest name legitimate)"

definition hasConfusableSubstitution :: "string \<Rightarrow> string \<Rightarrow> bool" where
  "hasConfusableSubstitution name legitimate =
     hasConfusableSubstitution_loop CONFUSABLE_PAIRS name legitimate"

text \<open>\<open>diffs\<close> counts the positions where the two strings differ; the loop runs only
  when they have the same length.\<close>

definition isTransposition :: "string \<Rightarrow> string \<Rightarrow> bool" where
  "isTransposition a b =
     (if (if length a \<le> length b then length b - length a else length a - length b) > 1
      then False
      else if length a = length b
      then length (filter (\<lambda>(x, y). x \<noteq> y) (zip a b)) \<le> 2
      else True)"

text \<open>
  The object \<open>detectTyposquat\<close> returns.  A confirmed match has no \<open>similarity\<close> and no
  \<open>method\<close> property, a computed one has no \<open>reason\<close>.  \<open>similarity\<close> holds the ratio
  \<open>1 - dist / maxLen\<close> itself; the source stores its rendering as a percentage with one
  decimal, which nothing reads but the terminal output.  The fields \<open>reason\<close>,
  \<open>severity\<close> and \<open>method\<close> of the source are \<open>c_reason\<close>, \<open>c_severity\<close> and
  \<open>c_method\<close>.
\<close>

record candidate =
  isTyposquat :: bool
  confidence :: string
  target :: string
  c_reason :: "string option"
  c_severity :: string
  distance :: nat
  similarity :: "rat option"
  c_method :: "string option"

text \<open>The body of the loop over the legitimate names: the candidate pushed, if any.\<close>

definition candidate_for :: "string \<Rightarrow> string \<Rightarrow> candidate option" where
  "candidate_for packageName legitimate =
     (let dist = levenshtein packageName legitimate;
          maxLen = max (length packageName) (length legitimate);
          sim = 1 - of_nat dist / (of_nat maxLen :: rat)
      in if dist > 0 \<and> dist \<le> 3 \<and> sim > 75 / 100 then
           let method0 = ''edit distance'';
               method1 = (if dist = 1 then ''single character difference'' else method0);
               method2 = (if isTransposition packageName legitimate
                          then ''character transposition'' else method1);
               method3 = (if hasConfusableSubstitution packageName legitimate
                          then ''confusable substitution'' else method2)
           in Some \<lparr>isTyposquat = True,
                 confidence = (if dist = 1 then ''high'' else if dist = 2 then ''medium'' else ''low''),
                 target = legitimate,
                 c_reason = None,
                 c_severity = (if dist = 1 then ''critical'' else ''high''),
                 distance = dist,
                 similarity = Some sim,
                 c_method = Some method3\<rparr>
         else None)"

text \<open>
  \<open>detectTyposquat\<close> over given tables; \<open>candidates.sort\<close> by distance is stable
  (ECMAScript 2019), as \<^const>\<open>sort_key\<close> is.
\<close>

definition detectTyposquat_in ::
    "malicious list \<Rightarrow> string list \<Rightarrow> string \<Rightarrow> candidate option" where
  "detectTyposquat_in mal legit packageName =
     (case find (\<lambda>m. m_name m = packageName) mal of
        Some knownMalicious \<Rightarrow>
          Some \<lparr>isTyposquat = True,
                confidence = ''confirmed'',
                target = impersonates knownMalicious,
                c_reason = Some (reason knownMalicious),
                c_severity = m_severity knownMalicious,
                distance = levenshtein packageName (impersonates knownMalicious),
                similarity = None,
                c_method = None\<rparr>
      | None \<Rightarrow>
          if packageName \<in> set legit then None
          else let candidates = List.map_filter (candidate_for packageName) legit
               in if length candidates > 0 then Some (hd (sort_key distance candidates))
                  else None)"

definition detectTyposquat :: "string \<Rightarrow> candidate option" where
  "detectTyposquat = detectTyposquat_in KNOWN_MALICIOUS KNOWN_LEGITIMATE_PACKAGES"

text \<open>
  Admissibility in the words of the specification: \<open>0 < distance \<le> 3\<close> and
  \<open>1 - distance / max(len(name), len(legit)) > 0.75\<close>.
\<close>

definition admissible :: "string \<Rightarrow> string \<Rightarrow> bool" where
  "admissible name legit \<longleftrightarrow>
     0 < levenshtein name legit \<and> levenshtein name legit \<le> 3 \<and>
     1 - of_nat (levenshtein name legit) / (of_nat (max (length name) (length legit)) :: rat)
       > 75 / 100"

text \<open>
  A second, row-by-row computation of the same distance, used to evaluate
  \<open>levenshtein\<close> on concrete names: \<open>row xs ys\<close> lists the distances of \<open>xs\<close> to every
  suffix of \<open>ys\<close>, the whole of \<open>ys\<close> first.
\<close>

fun row_Nil :: "'a list \<Rightarrow> nat list" where
  "row_Nil [] = [0]"
| "row_Nil (y # ys) = Suc (length ys) # row_Nil ys"

definition row_cell :: "'a \<Rightarrow> 'a \<Rightarrow> nat \<Rightarrow> nat \<Rightarrow> nat list \<Rightarrow> nat list" where
  "row_cell x y p q r = min (min (p + 1) (hd r + 1)) (q + (if x = y then 0 else 1)) # r"

fun row_next :: "'a \<Rightarrow> 'a list \<Rightarrow> nat list \<Rightarrow> nat list" where
  "row_next x (y # ys) (p # prev) = row_cell x y p (hd prev) (row_next x ys prev)"
| "row_next x ys prev = [hd prev + 1]"

fun row :: "'a list \<Rightarrow> 'a list \<Rightarrow> nat list" where
  "row [] ys = row_Nil ys"
| "row (x # xs) ys = row_next x ys (row xs ys)"

fun suffix_row :: "'a list \<Rightarrow> 'a list \<Rightarrow> nat list" where
  "suffix_row xs [] = [edit_distance xs []]"
| "suffix_row xs (y # ys) = edit_distance xs (y # ys) # suffix_row xs ys"

section \<open>Findings of one server (index.js)\<close>

text \<open>A non-negative integer in a template literal: its decimal digits.\<close>

definition digit_char :: "nat \<Rightarrow> char" where
  "digit_char d = ''0123456789'' ! d"

function show_nat :: "nat \<Rightarrow> string" where
  "show_nat n = (if n < 10 then [digit_char n] else show_nat (n div 10) @ [digit_char (n mod 10)])"
  by pat_completeness auto
termination
  by (relation "measure id") auto

declare show_nat.simps [simp del]

text \<open>
  The finding \<open>scanConfig\<close> pushes for a typosquat result.  A property the result object
  does not have renders as \<open>undefined\<close> in the template literal.
\<close>

definition typosquat_finding :: "string \<Rightarrow> string \<Rightarrow> candidate \<Rightarrow> finding" where
  "typosquat_finding name packageName typosquatResult =
     \<lparr>server = name,
      package = Some packageName,
      ftype = ''typosquat'',
      severity = c_severity typosquatResult,
      title = (if confidence typosquatResult = ''confirmed''
               then ''MALICIOUS: '' @ (case c_reason typosquatResult of
                                         None \<Rightarrow> ''undefined'' | Some r \<Rightarrow> r)
               else ''Potential typosquat of '' @ target typosquatResult),
      detail = ''Confidence: '' @ confidence typosquatResult @
               '' | Distance: '' @ show_nat (distance typosquatResult) @
               '' | Method: '' @ (case c_method typosquatResult of
                                    None \<Rightarrow> ''undefined'' | Some m \<Rightarrow> m),
      advice = ''Remove this server and replace with the legitimate package.'',
      fvalue = None\<rparr>"

section \<open>Regular expressions of the rule tables\<close>

text \<open>
  The patterns of the credential rules use literals, character classes, grouping,
  alternation and the quantifiers \<open>?\<close>, \<open>*\<close>, \<open>+\<close>, \<open>{n}\<close>, \<open>{n,}\<close>, all with the
  flag \<open>i\<close>.  \<open>pattern.test(value)\<close> asks whether some substring of the value belongs
  to the language of the pattern; it is decided here with derivatives.
\<close>

datatype atom = Ch char | Lower | Upper | Digit | Ws

datatype rx = Zero | Eps | Cls bool "atom list" | Seq rx rx | Alt rx rx | Star rx

text \<open>
  The atoms of a character class: a literal, the ranges \<open>a-z\<close>, \<open>A-Z\<close> and \<open>0-9\<close> (the
  only ranges the tables use), and \<open>\s\<close>.  Case folding of the flag \<open>i\<close>: the letters
  \<open>a\<close> to \<open>z\<close> fold onto \<open>A\<close> to \<open>Z\<close>, and no character beyond ASCII folds onto an
  ASCII one.
\<close>

definition lowers :: string where
  "lowers = ''abcdefghijklmnopqrstuvwxyz''"

definition uppers :: string where
  "uppers = ''ABCDEFGHIJKLMNOPQRSTUVWXYZ''"

definition digits :: string where
  "digits = ''0123456789''"

definition upper :: "char \<Rightarrow> char" where
  "upper c = (case map_of (zip lowers uppers) c of None \<Rightarrow> c | Some u \<Rightarrow> u)"

text \<open>\<open>\s\<close> on code units below 256: tab, line feed, vertical tab, form feed,
  carriage return, space and no-break space.\<close>

definition is_space :: "char \<Rightarrow> bool" where
  "is_space c \<longleftrightarrow>
     c \<in> set [CHR 0x09, CHR 0x0A, CHR 0x0B, CHR 0x0C, CHR 0x0D, CHR 0x20, CHR 0xA0]"

fun atom_match :: "bool \<Rightarrow> atom \<Rightarrow> char \<Rightarrow> bool" where
  "atom_match i (Ch l) c = (if i then upper c = upper l else c = l)"
| "atom_match i Lower c = (c \<in> set lowers \<or> (i \<and> c \<in> set uppers))"
| "atom_match i Upper c = (c \<in> set uppers \<or> (i \<and> c \<in> set lowers))"
| "atom_match i Digit c = (c \<in> set digits)"
| "atom_match i Ws c = is_space c"

text \<open>\<open>Cls False as\<close> is the class \<open>[as]\<close>, \<open>Cls True as\<close> the class \<open>[^as]\<close>.\<close>

definition cls_match :: "bool \<Rightarrow> bool \<Rightarrow> atom list \<Rightarrow> char \<Rightarrow> bool" where
  "cls_match i neg as c = (neg \<noteq> list_ex (\<lambda>a. atom_match i a c) as)"

fun nullable :: "rx \<Rightarrow> bool" where
  "nullable Zero = False"
| "nullable Eps = True"
| "nullable (Cls neg as) = False"
| "nullable (Seq r s) = (nullable r \<and> nullable s)"
| "nullable (Alt r s) = (nullable r \<or> nullable s)"
| "nullable (Star r) = True"

fun seq :: "rx \<Rightarrow> rx \<Rightarrow> rx" where
  "seq Zero s = Zero"
| "seq r Zero = Zero"
| "seq Eps s = s"
| "seq r s = Seq r s"

fun alt :: "rx \<Rightarrow> rx \<Rightarrow> rx" where
  "alt Zero s = s"
| "alt r Zero = r"
| "alt r s = Alt r s"

fun deriv :: "bool \<Rightarrow> char \<Rightarrow> rx \<Rightarrow> rx" where
  "deriv i c Zero = Zero"
| "deriv i c Eps = Zero"
| "deriv i c (Cls neg as) = (if cls_match i neg as c then Eps else Zero)"
| "deriv i c (Seq r s) =
     (if nullable r then alt (seq (deriv i c r) s) (deriv i c s) else seq (deriv i c r) s)"
| "deriv i c (Alt r s) = alt (deriv i c r) (deriv i c s)"
| "deriv i c (Star r) = seq (deriv i c r) (Star r)"

text \<open>Some prefix of the string matches; some substring of the string matches.\<close>

fun match_prefix :: "bool \<Rightarrow> rx \<Rightarrow> string \<Rightarrow> bool" where
  "match_prefix i r [] = nullable r"
| "match_prefix i r (c # cs) = (nullable r \<or> (r \<noteq> Zero \<and> match_prefix i (deriv i c r) cs))"

fun test :: "bool \<Rightarrow> rx \<Rightarrow> string \<Rightarrow> bool" where
  "test i r [] = nullable r"
| "test i r (c # cs) = (match_prefix i r (c # cs) \<or> test i r cs)"

text \<open>
  A match that must be followed by a rest of the string satisfying \<open>ok\<close>: this is how
  a pattern ends in a word boundary \<open>\b\<close> or in a negative lookahead \<open>(?!...)\<close>.
\<close>

fun match_then :: "bool \<Rightarrow> rx \<Rightarrow> (string \<Rightarrow> bool) \<Rightarrow> string \<Rightarrow> bool" where
  "match_then i r ok [] = (nullable r \<and> ok [])"
| "match_then i r ok (c # cs) =
     ((nullable r \<and> ok (c # cs)) \<or> (r \<noteq> Zero \<and> match_then i (deriv i c r) ok cs))"

fun test_then :: "bool \<Rightarrow> rx \<Rightarrow> (string \<Rightarrow> bool) \<Rightarrow> string \<Rightarrow> bool" where
  "test_then i r ok [] = match_then i r ok []"
| "test_then i r ok (c # cs) = (match_then i r ok (c # cs) \<or> test_then i r ok cs)"

text \<open>\<open>\b\<close> behind a word character: the end of the string or a character that is not
  a word character \<open>[A-Za-z0-9_]\<close>.\<close>

definition word_end :: "string \<Rightarrow> bool" where
  "word_end w =
     (case w of [] \<Rightarrow> True | c # cs \<Rightarrow> c \<notin> set (lowers @ uppers @ digits @ ''_''))"

text \<open>A pattern of a rule table: \<open>/r/i\<close>, or \<open>/r\b/i\<close> where \<open>r\<close> ends in word
  characters.\<close>

datatype pat = Re rx | Re_word_end rx

fun pat_test :: "pat \<Rightarrow> string \<Rightarrow> bool" where
  "pat_test (Re r) s = test True r s"
| "pat_test (Re_word_end r) s = test_then True r word_end s"

text \<open>Pattern syntax: a literal string, a sequence, \<open>r?\<close>, \<open>r+\<close>, \<open>r{n}\<close>, \<open>r{n,}\<close>.\<close>

definition seqs :: "rx list \<Rightarrow> rx" where
  "seqs rs = foldr Seq rs Eps"

definition str :: "string \<Rightarrow> rx" where
  "str s = seqs (map (\<lambda>c. Cls False [Ch c]) s)"

definition opt :: "rx \<Rightarrow> rx" where
  "opt r = Alt r Eps"

definition plus :: "rx \<Rightarrow> rx" where
  "plus r = Seq r (Star r)"

definition rep :: "nat \<Rightarrow> rx \<Rightarrow> rx" where
  "rep n r = seqs (replicate n r)"

definition at_least :: "nat \<Rightarrow> rx \<Rightarrow> rx" where
  "at_least n r = Seq (rep n r) (Star r)"

record rule =
  pattern :: pat
  r_type :: string
  r_severity :: string
  r_advice :: string

definition alnum :: "atom list" where
  "alnum = [Lower, Upper, Digit]"

definition db_url :: "rx \<Rightarrow> rx" where
  "db_url scheme =
     seqs [scheme, str ''://'', plus (Cls True [Ch CHR '':'']), str '':'',
           plus (Cls True [Ch CHR ''@'']), str ''@'']"

definition plaintext :: "string \<Rightarrow> rx" where
  "plaintext word =
     seqs [str word, Star (Cls False [Ws]), Cls False [Ch CHR '':'', Ch CHR ''=''],
           Star (Cls False [Ws]),
           plus (Cls True [Ws, Ch CHR '','', Ch CHR 0x7D, Ch CHR 0x7B])]"

definition CREDENTIAL_PATTERNS :: "rule list" where
  "CREDENTIAL_PATTERNS =
    [\<lparr>pattern = Re (db_url (Seq (str ''postgres'') (opt (str ''ql'')))),
      r_type = ''Database credentials'', r_severity = ''critical'',
      r_advice = ''Use environment variable references ($ENV_VAR) instead of inline credentials.''\<rparr>,
     \<lparr>pattern = Re (db_url (str ''mysql'')),
      r_type = ''Database credentials'', r_severity = ''critical'',
      r_advice = ''Use environment variable references instead of inline credentials.''\<rparr>,
     \<lparr>pattern = Re (db_url (Seq (str ''mongodb'') (opt (str ''+srv'')))),
      r_type = ''Database credentials'', r_severity = ''critical'',
      r_advice = ''Use environment variable references instead of inline credentials.''\<rparr>,
     \<lparr>pattern = Re (seqs [str ''redis://:'', plus (Cls True [Ch CHR ''@'']), str ''@'']),
      r_type = ''Redis credentials'', r_severity = ''high'',
      r_advice = ''Use environment variable references instead of inline credentials.''\<rparr>,
     \<lparr>pattern = Re (Seq (str ''sk-'') (at_least 20 (Cls False alnum))),
      r_type = ''OpenAI API key'', r_severity = ''critical'',
      r_advice = ''API keys should never be in config files. Use environment variables.''\<rparr>,
     \<lparr>pattern = Re (Seq (str ''sk-ant-'') (at_least 20 (Cls False (alnum @ [Ch CHR ''-''])))),
      r_type = ''Anthropic API key'', r_severity = ''critical'',
      r_advice = ''API keys should never be in config files. Use environment variables.''\<rparr>,
     \<lparr>pattern = Re (seqs [str ''xoxb-'', plus (Cls False [Digit]), str ''-'',
                      plus (Cls False [Digit, Upper, Lower])]),
      r_type = ''Slack Bot token'', r_severity = ''critical'',
      r_advice = ''Use environment variable references instead of inline tokens.''\<rparr>,
     \<lparr>pattern = Re (seqs [str ''xoxp-'', plus (Cls False [Digit]), str ''-'',
                      plus (Cls False [Digit, Upper, Lower])]),
      r_type = ''Slack User token'', r_severity = ''critical'',
      r_advice = ''Use environment variable references instead of inline tokens.''\<rparr>,
     \<lparr>pattern = Re (Seq (str ''ghp_'') (rep 36 (Cls False alnum))),
      r_type = ''GitHub PAT'', r_severity = ''critical'',
      r_advice = ''Use environment variable references instead of inline tokens.''\<rparr>,
     \<lparr>pattern = Re (Seq (str ''gho_'') (rep 36 (Cls False alnum))),
      r_type = ''GitHub OAuth token'', r_severity = ''critical'',
      r_advice = ''Use environment variable references instead of inline tokens.''\<rparr>,
     \<lparr>pattern = Re (Seq (str ''glpat-'') (rep 20 (Cls False (alnum @ [Ch CHR ''_'', Ch CHR ''-''])))),
      r_type = ''GitLab PAT'', r_severity = ''critical'',
      r_advice = ''Use environment variable references instead of inline tokens.''\<rparr>,
     \<lparr>pattern = Re (Seq (str ''AKIA'') (rep 16 (Cls False [Digit, Upper]))),
      r_type = ''AWS Access Key'', r_severity = ''critical'',
      r_advice = ''Use IAM roles or environment variables instead of inline keys.''\<rparr>,
     \<lparr>pattern = Re (plaintext ''password''),
      r_type = ''Plaintext password'', r_severity = ''high'',
      r_advice = ''Never store passwords in configuration files.''\<rparr>,
     \<lparr>pattern = Re (plaintext ''secret''),
      r_type = ''Plaintext secret'', r_severity = ''high'',
      r_advice = ''Never store secrets in configuration files.''\<rparr>,
     \<lparr>pattern = Re (plaintext ''token''),
      r_type = ''Plaintext token'', r_severity = ''medium'',
      r_advice = ''Consider using environment variable references for tokens.''\<rparr>,
     \<lparr>pattern = Re (seqs [str ''-----BEGIN '',
                      opt (Alt (str ''RSA '') (Alt (str ''EC '') (str ''OPENSSH ''))),
                      str ''PRIVATE KEY-----'']),
      r_type = ''Private key'', r_severity = ''critical'',
      r_advice = ''Private keys must never be embedded in configuration files.''\<rparr>]"

section \<open>Credential scan of one value (credentials.js)\<close>

text \<open>
  The masking \<open>value.replace(/([^:\/]{3})[^:\/\s@]{4,}/g, '$1****')\<close>.  A match at the
  start of \<open>s\<close> needs three characters other than \<open>:\<close> and \<open>/\<close> and then four
  characters other than \<open>:\<close>, \<open>/\<close>, \<open>@\<close> and white space; the greedy quantifier extends it
  over the whole run of such characters.  The match is replaced by its first three
  characters and \<open>****\<close>, and the search goes on behind it; where there is no match the
  character is kept and the search goes on at the next one.
\<close>

definition sep1 :: "char \<Rightarrow> bool" where
  "sep1 c \<longleftrightarrow> c = CHR '':'' \<or> c = CHR ''/''"

definition sep2 :: "char \<Rightarrow> bool" where
  "sep2 c \<longleftrightarrow> c = CHR '':'' \<or> c = CHR ''/'' \<or> is_space c \<or> c = CHR ''@''"

definition mask_match :: "string \<Rightarrow> bool" where
  "mask_match s \<longleftrightarrow>
     7 \<le> length s \<and> list_all (\<lambda>c. \<not> sep1 c) (take 3 s) \<and>
     list_all (\<lambda>c. \<not> sep2 c) (take 4 (drop 3 s))"

function mask_value :: "string \<Rightarrow> string" where
  "mask_value s =
     (if s = [] then []
      else if mask_match s
      then take 3 s @ ''****'' @ mask_value (dropWhile (\<lambda>c. \<not> sep2 c) (drop 3 s))
      else hd s # mask_value (tl s))"
  by pat_completeness auto
termination
proof (relation "measure length")
  show "wf (measure length)" by simp
next
  fix s :: string assume "s \<noteq> []" "mask_match s"
  have "length (dropWhile (\<lambda>c. \<not> sep2 c) (drop 3 s)) \<le> length (drop 3 s)"
    by (rule length_dropWhile_le)
  moreover have "length (drop 3 s) < length s"
    using \<open>mask_match s\<close> by (auto simp: mask_match_def)
  ultimately have "length (dropWhile (\<lambda>c. \<not> sep2 c) (drop 3 s)) < length s"
    by (rule le_less_trans)
  then show "(dropWhile (\<lambda>c. \<not> sep2 c) (drop 3 s), s) \<in> measure length"
    by simp
next
  fix s :: string assume "s \<noteq> []"
  then show "(tl s, s) \<in> measure length" by (cases s) simp_all
qed

declare mask_value.simps [simp del]

text \<open>
  \<open>scanValue\<close>: one finding for every rule whose pattern matches, in table order.  The
  fields \<open>server\<close> and \<open>package\<close> are filled in by \<open>scanConfig\<close>.
\<close>

definition credential_finding :: "string \<Rightarrow> string \<Rightarrow> rule \<Rightarrow> finding" where
  "credential_finding val path rule =
     \<lparr>server = [], package = None,
      ftype = ''hardcoded_credential'',
      severity = r_severity rule,
      title = r_type rule @ '' detected in config'',
      detail = ''Found at: '' @ path,
      advice = r_advice rule,
      fvalue = Some (mask_value val)\<rparr>"

definition scanValue :: "string \<Rightarrow> string \<Rightarrow> finding list" where
  "scanValue val path =
     map (credential_finding val path)
       (filter (\<lambda>rule. pat_test (pattern rule) val) CREDENTIAL_PATTERNS)"

section \<open>Credential scan of a server (credentials.js)\<close>

definition DANGEROUS_PERMISSIONS :: "rule list" where
  "DANGEROUS_PERMISSIONS =
    [\<lparr>pattern = Re (str ''--allow-all''),
      r_type = ''Unrestricted permissions'', r_severity = ''high'',
      r_advice = ''Use granular --allow-read and --allow-write flags instead.''\<rparr>,
     \<lparr>pattern = Re_word_end (Seq (Cls False [Ch CHR ''/'', Ch CHR 0x5C])
                   (Alt (str ''etc'') (Alt (str ''root'') (Alt (str ''sys'') (str ''proc''))))),
      r_type = ''System directory access'', r_severity = ''high'',
      r_advice = ''Restrict file access to application-specific directories.''\<rparr>,
     \<lparr>pattern = Re (str ''~/.ssh''),
      r_type = ''SSH directory access'', r_severity = ''critical'',
      r_advice = ''MCP servers should never access SSH keys.''\<rparr>,
     \<lparr>pattern = Re (str ''~/.aws''),
      r_type = ''AWS credentials directory access'', r_severity = ''critical'',
      r_advice = ''MCP servers should never access AWS credential files.''\<rparr>,
     \<lparr>pattern = Re (str ''~/.gnupg''),
      r_type = ''GPG keyring access'', r_severity = ''critical'',
      r_advice = ''MCP servers should never access GPG keyrings.''\<rparr>,
     \<lparr>pattern = Re (str ''~/.kube''),
      r_type = ''Kubernetes config access'', r_severity = ''high'',
      r_advice = ''MCP servers should not access kubeconfig by default.''\<rparr>,
     \<lparr>pattern = Re (str ''~/.docker''),
      r_type = ''Docker config access'', r_severity = ''high'',
      r_advice = ''MCP servers should not access Docker credentials.''\<rparr>,
     \<lparr>pattern = Re (str ''~/.npmrc''),
      r_type = ''npm config access'', r_severity = ''high'',
      r_advice = ''npm config may contain auth tokens. Do not expose to MCP servers.''\<rparr>,
     \<lparr>pattern = Re (str ''~/.env''),
      r_type = ''Dotenv file access'', r_severity = ''high'',
      r_advice = ''Environment files contain secrets. Do not expose to MCP servers.''\<rparr>,
     \<lparr>pattern = Re (str ''~/.git-credentials''),
      r_type = ''Git credentials file access'', r_severity = ''critical'',
      r_advice = ''Git credential store should never be accessible to MCP servers.''\<rparr>,
     \<lparr>pattern = Re (str ''~/.netrc''),
      r_type = ''Netrc file access'', r_severity = ''critical'',
      r_advice = ''Netrc contains machine credentials. Do not expose to MCP servers.''\<rparr>,
     \<lparr>pattern = Re (str ''0.0.0.0''),
      r_type = ''Binds to all interfaces'', r_severity = ''medium'',
      r_advice = ''Bind to 127.0.0.1 (localhost) unless remote access is explicitly required.''\<rparr>,
     \<lparr>pattern = Re (str ''--no-sandbox''),
      r_type = ''Sandbox disabled'', r_severity = ''high'',
      r_advice = ''Never disable sandboxing in production MCP servers.''\<rparr>,
     \<lparr>pattern = Re (str ''--disable-web-security''),
      r_type = ''Web security disabled'', r_severity = ''critical'',
      r_advice = ''Disabling web security exposes the browser to cross-origin attacks.''\<rparr>,
     \<lparr>pattern = Re (str ''--remote-debugging''),
      r_type = ''Remote debugging enabled'', r_severity = ''high'',
      r_advice = ''Remote debugging ports can be exploited for RCE.''\<rparr>,
     \<lparr>pattern = Re (Seq (str ''sudo'') (Cls False [Ws])),
      r_type = ''Elevated privileges (sudo)'', r_severity = ''critical'',
      r_advice = ''MCP servers should never run with sudo/root privileges.''\<rparr>,
     \<lparr>pattern = Re (str ''--privileged''),
      r_type = ''Privileged mode'', r_severity = ''critical'',
      r_advice = ''Do not run MCP servers in Docker privileged mode.''\<rparr>,
     \<lparr>pattern = Re (seqs [str ''chmod'', plus (Cls False [Ws]), str ''777'']),
      r_type = ''World-writable permissions'', r_severity = ''high'',
      r_advice = ''Never set 777 permissions in MCP server operations.''\<rparr>]"

text \<open>\<open>serverConfig.env || {}\<close>, its entries in the order \<open>Object.entries\<close> lists them.\<close>

definition env_of :: "serverConfig \<Rightarrow> (string \<times> string) list" where
  "env_of serverConfig = (case env serverConfig of None \<Rightarrow> [] | Some e \<Rightarrow> e)"

text \<open>The paths \<open>`${serverName}.args[${i}]`\<close> and \<open>`${serverName}.env.${k}`\<close>.\<close>

definition arg_path :: "string \<Rightarrow> nat \<Rightarrow> string" where
  "arg_path serverName i = serverName @ ''.args['' @ show_nat i @ '']''"

definition env_path :: "string \<Rightarrow> string \<Rightarrow> string" where
  "env_path serverName k = serverName @ ''.env.'' @ k"

definition indexed :: "'a list \<Rightarrow> (nat \<times> 'a) list" where
  "indexed xs = zip [0..<length xs] xs"

definition permission_finding :: "string \<Rightarrow> string \<Rightarrow> rule \<Rightarrow> finding" where
  "permission_finding val path rule =
     \<lparr>server = [], package = None,
      ftype = ''dangerous_permission'',
      severity = r_severity rule,
      title = r_type rule,
      detail = ''Found at: '' @ path,
      advice = r_advice rule,
      fvalue = Some val\<rparr>"

definition scanPermissions :: "string list \<Rightarrow> (string \<times> string) list \<Rightarrow> string \<Rightarrow> finding list" where
  "scanPermissions as e serverName =
     (let allValues = map (\<lambda>(i, a). (a, arg_path serverName i)) (indexed as) @
                      map (\<lambda>(k, v). (v, env_path serverName k)) e
      in concat (map (\<lambda>(val, path).
           map (permission_finding val path)
             (filter (\<lambda>rule. pat_test (pattern rule) val) DANGEROUS_PERMISSIONS)) allValues))"

text \<open>\<open>args.join(' ')\<close>.\<close>

fun join_sp :: "string list \<Rightarrow> string" where
  "join_sp [] = []"
| "join_sp [a] = a"
| "join_sp (a # b # rest) = a @ '' '' @ join_sp (b # rest)"

text \<open>\<open>/http:\/\/(?!localhost|127\.0\.0\.1|0\.0\.0\.0)/i\<close>.\<close>

definition httpPattern :: "string \<Rightarrow> bool" where
  "httpPattern s =
     test_then True (str ''http://'')
       (\<lambda>w. \<not> match_prefix True
                (Alt (str ''localhost'') (Alt (str ''127.0.0.1'') (str ''0.0.0.0''))) w) s"

text \<open>\<open>env.K\<close> read as a condition: the key is there and its value is not empty.\<close>

definition env_truthy :: "(string \<times> string) list \<Rightarrow> string \<Rightarrow> bool" where
  "env_truthy e k = (case map_of e k of None \<Rightarrow> False | Some v \<Rightarrow> v \<noteq> [])"

definition scanTransport :: "serverConfig \<Rightarrow> string \<Rightarrow> finding list" where
  "scanTransport serverConfig serverName =
     (let as = join_sp (args_of serverConfig); e = env_of serverConfig
      in (if httpPattern as \<or> list_ex (\<lambda>(k, v). httpPattern v) e
          then [\<lparr>server = [], package = None,
                 ftype = ''insecure_transport'', severity = ''high'',
                 title = ''Non-HTTPS URL detected'',
                 detail = ''Server '' @ serverName @ '' connects over unencrypted HTTP'',
                 advice = ''Use HTTPS for all remote MCP server connections to prevent credential interception.'',
                 fvalue = None\<rparr>]
          else []) @
         (if (includes_str as ''sse'' \<or> transport serverConfig = Some ''sse'') \<and>
             \<not> includes_str as ''auth'' \<and> \<not> env_truthy e ''AUTH_TOKEN'' \<and>
             \<not> env_truthy e ''API_KEY'' \<and> \<not> env_truthy e ''BEARER_TOKEN''
          then [\<lparr>server = [], package = None,
                 ftype = ''missing_auth'', severity = ''medium'',
                 title = ''SSE transport without visible authentication'',
                 detail = ''Server '' @ serverName @
                          '' uses SSE transport but no auth token is configured'',
                 advice = ''Ensure SSE connections use OAuth or bearer token authentication.'',
                 fvalue = None\<rparr>]
          else []))"

text \<open>\<open>/key|token|secret|password|credential|auth|bearer/i\<close>.\<close>

definition sensitiveKeys :: "string \<Rightarrow> bool" where
  "sensitiveKeys k =
     test True (Alt (str ''key'') (Alt (str ''token'') (Alt (str ''secret'') (Alt (str ''password'')
       (Alt (str ''credential'') (Alt (str ''auth'') (str ''bearer'')))))))  k"

definition inline_secret_finding :: "string \<Rightarrow> string \<Rightarrow> string \<Rightarrow> finding" where
  "inline_secret_finding serverName key val =
     \<lparr>server = [], package = None,
      ftype = ''inline_secret'', severity = ''high'',
      title = ''Secret value inlined for '' @ key,
      detail = serverName @ ''.env.'' @ key @
               '' contains a direct value instead of an env reference'',
      advice = ''Use an environment variable reference: '' @ [CHR 0x22] @ key @ [CHR 0x22] @
               '': '' @ [CHR 0x22] @ ''$'' @ key @ [CHR 0x22] @
               '' and set it in your shell environment.'',
      fvalue = Some (take 4 val @ ''****'')\<rparr>"

definition scanEnvValues :: "(string \<times> string) list \<Rightarrow> string \<Rightarrow> finding list" where
  "scanEnvValues e serverName =
     concat (map (\<lambda>(key, val).
       (if sensitiveKeys key \<and> \<not> startsWith val ''$'' \<and> \<not> startsWith val ''${'' \<and>
           length val > 5
        then [inline_secret_finding serverName key val] else []) @
       scanValue val (env_path serverName key)) e)"

text \<open>The array \<open>findings\<close> of \<open>scanCredentials\<close> before the final filter.\<close>

definition scanCredentials_all :: "serverConfig \<Rightarrow> string \<Rightarrow> finding list" where
  "scanCredentials_all serverConfig serverName =
     concat (map (\<lambda>(i, a). scanValue a (arg_path serverName i)) (indexed (args_of serverConfig))) @
     scanEnvValues (env_of serverConfig) serverName @
     scanPermissions (args_of serverConfig) (env_of serverConfig) serverName @
     scanTransport serverConfig serverName"

text \<open>The filter with the set \<open>seen\<close> of keys \<open>`${f.title}:${f.detail}`\<close>.\<close>

definition dedup_key :: "finding \<Rightarrow> string" where
  "dedup_key f = title f @ '':'' @ detail f"

fun dedup :: "string list \<Rightarrow> finding list \<Rightarrow> finding list" where
  "dedup seen [] = []"
| "dedup seen (f # fs) =
     (if dedup_key f \<in> set seen then dedup seen fs
      else f # dedup (dedup_key f # seen) fs)"

definition scanCredentials :: "serverConfig \<Rightarrow> string \<Rightarrow> finding list" where
  "scanCredentials serverConfig serverName = dedup [] (scanCredentials_all serverConfig serverName)"

section \<open>Known vulnerabilities and publishers (cvecheck.js, typosquat.js)\<close>

text \<open>
  A vulnerability record with the fields that reach the fields of \<^typ>\<open>finding\<close>; its
  \<open>cvss\<close>, \<open>description\<close>, \<open>affected\<close> and \<open>references\<close> go into further properties of
  the finding object.
\<close>

record vuln =
  v_id :: string
  v_severity :: string
  v_title :: string
  v_fixed :: "string option"

record vuln_entry =
  e_package :: string
  verified :: bool
  vulnerabilities :: "vuln list"

definition KNOWN_VULNS :: "(string \<times> vuln_entry) list" where
  "KNOWN_VULNS =
    [(''@anthropic/mcp-server-git'',
      \<lparr>e_package = ''@anthropic/mcp-server-git'', verified = True,
       vulnerabilities =
         [\<lparr>v_id = ''CVE-2025-68145'', v_severity = ''critical'',
           v_title = ''Path validation bypass via prompt injection'',
           v_fixed = Some ''0.6.3''\<rparr>,
          \<lparr>v_id = ''CVE-2025-68143'', v_severity = ''high'',
           v_title = ''Unrestricted git_init enables arbitrary repo creation'',
           v_fixed = Some ''0.6.3''\<rparr>,
          \<lparr>v_id = ''CVE-2025-68144'', v_severity = ''high'',
           v_title = ''Argument injection in git commands'',
           v_fixed = Some ''0.6.3''\<rparr>]\<rparr>),
     (''@modelcontextprotocol/server-filesystem'',
      \<lparr>e_package = ''@modelcontextprotocol/server-filesystem'', verified = True,
       vulnerabilities =
         [\<lparr>v_id = ''MCP-2026-0012'', v_severity = ''high'',
           v_title = ''Symlink traversal bypasses allowed_directories'',
           v_fixed = Some ''0.6.3''\<rparr>]\<rparr>),
     (''@modelcontextprotocol/server-postgres'',
      \<lparr>e_package = ''@modelcontextprotocol/server-postgres'', verified = True,
       vulnerabilities =
         [\<lparr>v_id = ''MCP-2026-0019'', v_severity = ''critical'',
           v_title = ''SQL injection via tool parameter passthrough'',
           v_fixed = None\<rparr>]\<rparr>),
     (''mcp-server-postgres'',
      \<lparr>e_package = ''mcp-server-postgres'', verified = False,
       vulnerabilities =
         [\<lparr>v_id = ''MCP-2026-0019'', v_severity = ''critical'',
           v_title = ''SQL injection via tool parameter passthrough'',
           v_fixed = None\<rparr>,
          \<lparr>v_id = ''MCP-2026-0020'', v_severity = ''critical'',
           v_title = ''Connection string exposed in tool metadata'',
           v_fixed = None\<rparr>,
          \<lparr>v_id = ''MCP-2026-0021'', v_severity = ''high'',
           v_title = ''No query allow-listing or scope restriction'',
           v_fixed = None\<rparr>]\<rparr>),
     (''@microsoft/markitdown-mcp'',
      \<lparr>e_package = ''@microsoft/markitdown-mcp'', verified = True,
       vulnerabilities =
         [\<lparr>v_id = ''MCP-2026-0008'', v_severity = ''medium'',
           v_title = ''SSRF via crafted document URLs'',
           v_fixed = Some ''1.2.1''\<rparr>]\<rparr>),
     (''mcp-server-browser'',
      \<lparr>e_package = ''mcp-server-browser'', verified = False,
       vulnerabilities =
         [\<lparr>v_id = ''MCP-2026-0030'', v_severity = ''critical'',
           v_title = ''Arbitrary JavaScript execution via page navigation'',
           v_fixed = None\<rparr>,
          \<lparr>v_id = ''MCP-2026-0031'', v_severity = ''high'',
           v_title = ''Cookie exfiltration through response metadata'',
           v_fixed = None\<rparr>]\<rparr>)]"

datatype error = TypeError

text \<open>
  \<open>KNOWN_VULNS[packageName]\<close> on a plain object also finds what the object inherits
  from \<open>Object.prototype\<close>; such a value is not falsy and has no \<open>vulnerabilities\<close>, so
  \<open>entry.vulnerabilities.map\<close> throws a \<open>TypeError\<close>.
\<close>

definition object_prototype_names :: "string list" where
  "object_prototype_names =
     [''constructor'', ''__defineGetter__'', ''__defineSetter__'', ''hasOwnProperty'',
      ''__lookupGetter__'', ''__lookupSetter__'', ''isPrototypeOf'', ''propertyIsEnumerable'',
      ''toString'', ''valueOf'', ''__proto__'', ''toLocaleString'']"

definition checkCVEs :: "string \<Rightarrow> error + vuln_entry option" where
  "checkCVEs packageName =
     (if packageName = [] then Inr None
      else case map_of KNOWN_VULNS packageName of
             Some entry \<Rightarrow> Inr (Some entry)
           | None \<Rightarrow> if packageName \<in> set object_prototype_names then Inl TypeError
                     else Inr None)"

definition cve_finding :: "string \<Rightarrow> string \<Rightarrow> vuln \<Rightarrow> finding" where
  "cve_finding serverName pkg v =
     \<lparr>server = [], package = None,
      ftype = ''known_vulnerability'',
      severity = v_severity v,
      title = v_id v @ '': '' @ v_title v,
      detail = ''Affects '' @ serverName @ '' ('' @ pkg @ '')'',
      advice = (case v_fixed v of
                  Some fixed \<Rightarrow> if fixed \<noteq> [] then ''Upgrade to version '' @ fixed @ '' or later.''
                    else ''No patch available. Consider using an alternative server or implementing additional controls.''
                | None \<Rightarrow> ''No patch available. Consider using an alternative server or implementing additional controls.''),
      fvalue = None\<rparr>"

definition formatCVEFindings :: "vuln_entry option \<Rightarrow> string \<Rightarrow> finding list" where
  "formatCVEFindings cveResult serverName =
     (case cveResult of
        None \<Rightarrow> []
      | Some entry \<Rightarrow> map (cve_finding serverName (e_package entry)) (vulnerabilities entry))"

definition trustedScopes :: "string list" where
  "trustedScopes =
     [''@anthropic/'', ''@modelcontextprotocol/'', ''@microsoft/'', ''@google/'',
      ''@stripe/'', ''@cloudflare/'', ''@vercel/'', ''@supabase/'']"

text \<open>The reason text for an unknown publisher holds three characters beyond ASCII
  (U+00E2, U+20AC, U+201D); they are kept as the bytes of their UTF-8 encoding.\<close>

definition unknown_publisher_reason :: string where
  "unknown_publisher_reason =
     ''Unknown publisher '' @ [CHR 0xC3, CHR 0xA2, CHR 0xE2, CHR 0x82, CHR 0xAC, CHR 0xE2, CHR 0x80, CHR 0x9D] @
     '' not from a trusted scope or verified list''"

text \<open>\<open>checkPublisher\<close>: whether the publisher is trusted, and the reason.\<close>

definition checkPublisher :: "string \<Rightarrow> bool \<times> string" where
  "checkPublisher packageName =
     (case find (\<lambda>scope. startsWith packageName scope) trustedScopes of
        Some scope \<Rightarrow> (True, ''Published under trusted scope '' @ scope)
      | None \<Rightarrow>
          if packageName \<in> set KNOWN_LEGITIMATE_PACKAGES
          then (True, ''Listed in verified community packages'')
          else (False, unknown_publisher_reason))"

section \<open>Structural checks and the scan of a configuration (vulndb.js, index.js)\<close>

record config_issue =
  check :: "serverConfig \<Rightarrow> bool"
  skipIf :: "(serverConfig \<Rightarrow> bool) option"
  i_type :: string
  i_severity :: string
  i_title :: string
  i_advice :: string

definition needsAuth :: "string \<Rightarrow> bool" where
  "needsAuth s =
     test True (Alt (str ''slack'') (Alt (str ''github'') (Alt (str ''gitlab'') (Alt (str ''stripe'')
       (Alt (str ''notion'') (Alt (str ''linear'') (Alt (str ''supabase'') (Alt (str ''datadog'')
       (str ''sentry''))))))))) s"

definition CONFIG_ISSUES :: "config_issue list" where
  "CONFIG_ISSUES =
    [\<lparr>check = (\<lambda>serverConfig. env serverConfig = None \<or> env serverConfig = Some []),
      skipIf = Some (\<lambda>serverConfig. \<not> needsAuth (join_sp (args_of serverConfig))),
      i_type = ''missing_auth'', i_severity = ''medium'',
      i_title = ''No authentication configured'',
      i_advice = ''This server typically requires API keys or tokens. Ensure auth is configured via environment variables.''\<rparr>,
     \<lparr>check = (\<lambda>serverConfig.
         test True (str ''stdio'') (join_sp (args_of serverConfig)) \<and>
         test True (Alt (str ''0.0.0.0'') (Alt (str ''--host'') (str ''--port'')))
           (join_sp (args_of serverConfig))),
      skipIf = None,
      i_type = ''mixed_transport'', i_severity = ''medium'',
      i_title = ''Mixed transport indicators'',
      i_advice = ''Server config appears to mix stdio and network transport. Verify intended transport mode.''\<rparr>]"

definition issue_findings :: "string \<Rightarrow> string option \<Rightarrow> serverConfig \<Rightarrow> finding list" where
  "issue_findings name packageName serverConfig =
     concat (map (\<lambda>issue.
       if (case skipIf issue of None \<Rightarrow> False | Some skip \<Rightarrow> skip serverConfig) then []
       else if check issue serverConfig
       then [\<lparr>server = name, package = packageName,
               ftype = i_type issue, severity = i_severity issue,
               title = i_title issue,
               detail = ''Server: '' @ name,
               advice = i_advice issue, fvalue = None\<rparr>]
       else []) CONFIG_ISSUES)"

text \<open>
  The findings of the steps 1 to 3 of \<open>scanConfig\<close> for one server, run only when the
  package name is neither \<open>null\<close> nor empty.
\<close>

definition typosquat_findings :: "string \<Rightarrow> string \<Rightarrow> finding list" where
  "typosquat_findings name packageName =
     (case detectTyposquat packageName of
        None \<Rightarrow> []
      | Some typosquatResult \<Rightarrow> [typosquat_finding name packageName typosquatResult])"

definition publisher_findings :: "string \<Rightarrow> string \<Rightarrow> finding list" where
  "publisher_findings name packageName =
     (if \<not> fst (checkPublisher packageName)
      then [\<lparr>server = name, package = Some packageName,
              ftype = ''unverified_publisher'', severity = ''medium'',
              title = ''Unverified publisher for '' @ packageName,
              detail = snd (checkPublisher packageName),
              advice = ''Use packages from trusted scopes (@anthropic/, @modelcontextprotocol/) when possible.'',
              fvalue = None\<rparr>]
      else [])"

definition cve_findings :: "string \<Rightarrow> string \<Rightarrow> error + finding list" where
  "cve_findings name packageName =
     (case checkCVEs packageName of
        Inl e \<Rightarrow> Inl e
      | Inr cveResult \<Rightarrow>
          Inr (map (\<lambda>f. f\<lparr>server := name, package := Some packageName\<rparr>)
                 (formatCVEFindings cveResult name)))"

text \<open>
  One round of the loop of \<open>scanConfig\<close>: the array \<open>serverFindings\<close>, or the exception
  that ends the scan.  \<open>credentials\<close> is the list that the credential scan contributes:
  \<open>scanCredentials\<close> in the code, \<open>scanCredentials_all\<close> for the findings generated
  before its filter.
\<close>

definition server_findings_with ::
    "(serverConfig \<Rightarrow> string \<Rightarrow> finding list) \<Rightarrow> string \<Rightarrow> serverConfig \<Rightarrow> error + finding list" where
  "server_findings_with credentials name serverConfig =
     (let packageName = extractPackageName serverConfig;
          named = (case packageName of None \<Rightarrow> None | Some p \<Rightarrow> if p = [] then None else Some p);
          credFindings = map (\<lambda>f. f\<lparr>server := name, package := packageName\<rparr>)
                           (credentials serverConfig name);
          issues = issue_findings name packageName serverConfig
      in case named of
           None \<Rightarrow> Inr (credFindings @ issues)
         | Some p \<Rightarrow>
             (case cve_findings name p of
                Inl e \<Rightarrow> Inl e
              | Inr cveFindings \<Rightarrow>
                  Inr (typosquat_findings name p @ publisher_findings name p @ cveFindings @
                       credFindings @ issues)))"

definition serverFindings :: "string \<Rightarrow> serverConfig \<Rightarrow> error + finding list" where
  "serverFindings = server_findings_with scanCredentials"

definition generatedFindings :: "string \<Rightarrow> serverConfig \<Rightarrow> error + finding list" where
  "generatedFindings = server_findings_with scanCredentials_all"

text \<open>\<open>scanConfig\<close>: the array \<open>allFindings\<close> over the servers in the order of
  \<open>Object.keys\<close>.\<close>

fun scanConfig :: "(string \<times> serverConfig) list \<Rightarrow> error + finding list" where
  "scanConfig [] = Inr []"
| "scanConfig ((name, serverConfig) # servers) =
     (case serverFindings name serverConfig of
        Inl e \<Rightarrow> Inl e
      | Inr fs \<Rightarrow> (case scanConfig servers of Inl e \<Rightarrow> Inl e | Inr rest \<Rightarrow> Inr (fs @ rest)))"

text \<open>The identity of a finding for deduplication, and the first four characters of
  its title, which tell the rule families apart.\<close>

definition dedup_pair :: "finding \<Rightarrow> string \<times> string" where
  "dedup_pair f = (title f, detail f)"

definition title_tags :: "string list \<Rightarrow> finding list \<Rightarrow> bool" where
  "title_tags tags fs = list_all (\<lambda>f. take 4 (title f) \<in> set tags) fs"

text \<open>A title without \<open>:\<close> that is not the title of an inlined-secret finding.\<close>

definition fixed_title :: "string \<Rightarrow> bool" where
  "fixed_title t \<longleftrightarrow> CHR '':'' \<notin> set t \<and> \<not> startsWith t ''Secret value inlined for ''"

text \<open>The title tags of the five rule families of \<open>scanConfig\<close>.\<close>

definition tags_typosquat :: "string list" where
  "tags_typosquat = [''MALI'', ''Pote'']"

definition tags_publisher :: "string list" where
  "tags_publisher = [''Unve'']"

definition tags_cve :: "string list" where
  "tags_cve = [''CVE-'', ''MCP-'']"

definition tags_credentials :: "string list" where
  "tags_credentials =
     [''Data'', ''Redi'', ''Open'', ''Anth'', ''Slac'', ''GitH'', ''GitL'', ''AWS '', ''Plai'',
      ''Priv'', ''Secr'', ''Unre'', ''Syst'', ''SSH '', ''GPG '', ''Kube'', ''Dock'', ''npm '',
      ''Dote'', ''Git '', ''Netr'', ''Bind'', ''Sand'', ''Web '', ''Remo'', ''Elev'', ''Worl'',
      ''Non-'', ''SSE '']"

definition tags_issues :: "string list" where
  "tags_issues = [''No a'', ''Mixe'']"

section \<open>The verdict\<close>

lemma count_finding_other:
  "severity f \<noteq> ''critical'' \<Longrightarrow> severity f \<noteq> ''high'' \<Longrightarrow>
   critical (count_finding f h) = critical h \<and> high (count_finding f h) = high h"
  by (simp add: count_finding_def)

lemma aggregate_snoc: "aggregate (fs @ [f]) = count_finding f (aggregate fs)"
  by (simp add: aggregate_def)

text \<open>
  Claim C1.  The exit code is 2 when the critical count is positive, otherwise 1 when the
  high count is positive, otherwise 0; the report's \<open>pass\<close> flag holds exactly when both
  counts are 0; the medium and low counts, and a further finding of severity medium, low
  or info, change neither.
\<close>

theorem verdict_policy:
  "(0 < critical h \<longrightarrow> exit_code h = 2) \<and>
   (critical h = 0 \<and> 0 < high h \<longrightarrow> exit_code h = 1) \<and>
   (critical h = 0 \<and> high h = 0 \<longrightarrow> exit_code h = 0) \<and>
   (report_pass h \<longleftrightarrow> critical h = 0 \<and> high h = 0) \<and>
   exit_code (h\<lparr>medium := m, low := l\<rparr>) = exit_code h \<and>
   report_pass (h\<lparr>medium := m, low := l\<rparr>) = report_pass h \<and>
   (severity f \<in> {''medium'', ''low'', ''info''} \<longrightarrow>
      exit_code (aggregate (fs @ [f])) = exit_code (aggregate fs) \<and>
      report_pass (aggregate (fs @ [f])) = report_pass (aggregate fs))"
proof -
  have "severity f \<in> {''medium'', ''low'', ''info''} \<Longrightarrow>
        severity f \<noteq> ''critical'' \<and> severity f \<noteq> ''high''"
    by auto
  then have "severity f \<in> {''medium'', ''low'', ''info''} \<Longrightarrow>
      critical (aggregate (fs @ [f])) = critical (aggregate fs) \<and>
      high (aggregate (fs @ [f])) = high (aggregate fs)"
    using count_finding_other [of f "aggregate fs"] by (simp add: aggregate_snoc)
  then show ?thesis
    by (simp add: exit_code_def report_pass_def)
qed

theorem verdict_policy_witness:
  "exit_code \<lparr>critical = 1, high = 0, medium = 0, low = 0\<rparr> = 2 \<and>
   exit_code \<lparr>critical = 0, high = 3, medium = 0, low = 0\<rparr> = 1 \<and>
   exit_code \<lparr>critical = 0, high = 0, medium = 4, low = 1\<rparr> = 0 \<and>
   report_pass \<lparr>critical = 0, high = 0, medium = 4, low = 1\<rparr> \<and>
   exit_code (aggregate ([] @ [\<lparr>server = ''s'', package = None, ftype = ''registry_registry_unavailable'',
       severity = ''info'', title = ''npm registry check unavailable'', detail = ''d'',
       advice = ''a'', fvalue = None\<rparr>])) = exit_code (aggregate [])"
  using verdict_policy [where h = "\<lparr>critical = 1, high = 0, medium = 0, low = 0\<rparr>"]
    verdict_policy [where h = "\<lparr>critical = 0, high = 3, medium = 0, low = 0\<rparr>"]
    verdict_policy [where h = "\<lparr>critical = 0, high = 0, medium = 4, low = 1\<rparr>" 
      and f = "\<lparr>server = ''s'', package = None, ftype = ''registry_registry_unavailable'',
       severity = ''info'', title = ''npm registry check unavailable'', detail = ''d'',
       advice = ''a'', fvalue = None\<rparr>" and fs = "[]"]
  by simp

section \<open>Package identity\<close>

lemma extractPackageName_loop_find:
  "extractPackageName_loop as =
     find (\<lambda>arg. \<not> startsWith arg ''-'' \<and> (startsWith arg ''@'' \<or> \<not> includes_str arg ''/'')) as"
  by (induction as) auto

lemma extractPackageName_runner:
  assumes "command_of cfg = ''npx'' \<or> command_of cfg = ''uvx''"
  shows "extractPackageName cfg = extractPackageName_loop (args_of cfg)"
proof (cases "extractPackageName_loop (args_of cfg)")
  case None
  with assms show ?thesis
    by (auto simp add: extractPackageName_def startsWith_def)
next
  case (Some a)
  with assms show ?thesis
    by (auto simp add: extractPackageName_def)
qed

lemma extractPackageName_local:
  assumes "command_of cfg = ''node'' \<or> command_of cfg = ''python'' \<or> command_of cfg = ''python3''"
  shows "extractPackageName cfg = None"
  using assms by (auto simp add: extractPackageName_def)

lemma extractPackageName_other:
  assumes "command_of cfg \<notin> {''npx'', ''uvx'', ''node'', ''python'', ''python3''}"
  shows "extractPackageName cfg =
     (if startsWith (command_of cfg) ''mcp-'' \<or> startsWith (command_of cfg) ''@''
      then Some (command_of cfg) else None)"
  using assms by (simp add: extractPackageName_def)

text \<open>
  Claim C9, as the code has it.  For \<open>npx\<close> and \<open>uvx\<close> the identity is the first
  argument that is not a flag and that starts with \<open>@\<close> or contains no \<open>/\<close> (none when
  there is no such argument); for \<open>node\<close>, \<open>python\<close> and \<open>python3\<close> there is none;
  for any other command the identity is the command when it starts with \<open>mcp-\<close> or
  \<open>@\<close>, and none otherwise.
\<close>

theorem extractPackageName_policy:
  "(command_of cfg = ''npx'' \<or> command_of cfg = ''uvx'' \<longrightarrow>
      extractPackageName cfg =
        find (\<lambda>arg. \<not> startsWith arg ''-'' \<and>
                (startsWith arg ''@'' \<or> \<not> includes_str arg ''/'')) (args_of cfg)) \<and>
   (command_of cfg = ''node'' \<or> command_of cfg = ''python'' \<or> command_of cfg = ''python3'' \<longrightarrow>
      extractPackageName cfg = None) \<and>
   (command_of cfg \<notin> {''npx'', ''uvx'', ''node'', ''python'', ''python3''} \<longrightarrow>
      extractPackageName cfg =
        (if startsWith (command_of cfg) ''mcp-'' \<or> startsWith (command_of cfg) ''@''
         then Some (command_of cfg) else None))"
  using extractPackageName_runner [of cfg] extractPackageName_local [of cfg]
    extractPackageName_other [of cfg]
  unfolding extractPackageName_loop_find by blast

theorem extractPackageName_policy_witness:
  "extractPackageName \<lparr>command = Some ''npx'',
       args = Some [''-y'', ''./dist/server.js'', ''@modelcontextprotocol/server-github''],
       env = None, transport = None\<rparr> = Some ''@modelcontextprotocol/server-github'' \<and>
   extractPackageName \<lparr>command = Some ''python3'', args = Some [''server.py''],
       env = None, transport = None\<rparr> = None \<and>
   extractPackageName \<lparr>command = Some ''mcp-server-github'', args = None,
       env = None, transport = None\<rparr> = Some ''mcp-server-github''"
  using extractPackageName_policy [of "\<lparr>command = Some ''npx'',
       args = Some [''-y'', ''./dist/server.js'', ''@modelcontextprotocol/server-github''],
       env = None, transport = None\<rparr>"]
    extractPackageName_policy [of "\<lparr>command = Some ''python3'', args = Some [''server.py''],
       env = None, transport = None\<rparr>"]
    extractPackageName_policy [of "\<lparr>command = Some ''mcp-server-github'', args = None,
       env = None, transport = None\<rparr>"]
  by (simp add: startsWith_def command_of_def args_of_def)

text \<open>
  Claim C9 as written takes the first non-flag argument.  With \<open>npx ./dist/server.js\<close>
  that argument is \<open>./dist/server.js\<close>, and the code returns no identity.
\<close>

theorem extractPackageName_first_nonflag_counterexample:
  "extractPackageName \<lparr>command = Some ''npx'', args = Some [''./dist/server.js''],
       env = None, transport = None\<rparr>
   \<noteq> find (\<lambda>arg. \<not> startsWith arg ''-'') [''./dist/server.js'']"
  by (simp add: extractPackageName_def startsWith_def command_of_def args_of_def)

section \<open>The edit distance is a metric, and the table computes it\<close>

lemma ed_Nil2: "edit_distance xs [] = length xs"
  by (cases xs) simp_all

lemma ed_sym: "edit_distance xs ys = edit_distance ys xs"
  by (induction xs ys rule: edit_distance.induct) (simp_all add: ed_Nil2 min.commute min.left_commute)

lemma ed_refl: "edit_distance xs xs = 0"
  by (induction xs) simp_all

lemma ed_Cons_le1: "edit_distance (x # xs) ys \<le> edit_distance xs ys + 1"
  by (cases ys) (simp_all add: ed_Nil2)

lemma ed_Cons_le2: "edit_distance xs (y # ys) \<le> edit_distance xs ys + 1"
  by (cases xs) simp_all

lemma ed_length_le: "length ys \<le> length xs + edit_distance xs ys"
proof (induction xs ys rule: edit_distance.induct)
  case (3 x xs y ys)
  then show ?case by (simp add: min_def)
qed simp_all

lemma min3_bound:
  "(A::nat) \<le> B + 1 \<Longrightarrow> B \<le> C + 1 \<Longrightarrow> A \<le> min (min (C + 1) (A + 1)) (B + k) + 1"
  by arith

lemma ed_le_Cons2: "edit_distance xs ys \<le> edit_distance xs (y # ys) + 1"
proof (induction xs ys arbitrary: y rule: edit_distance.induct)
  case (1 ys)
  then show ?case by simp
next
  case (2 x xs)
  have "length xs \<le> length [y] + edit_distance [y] xs"
    by (rule ed_length_le)
  then show ?case by (simp add: ed_sym [of "[y]"] ed_Nil2)
next
  case (3 x xs y' ys)
  have a: "edit_distance (x # xs) (y' # ys) \<le> edit_distance xs (y' # ys) + 1"
    by (rule ed_Cons_le1)
  have b: "edit_distance xs (y' # ys) \<le> edit_distance xs (y # y' # ys) + 1"
    by (rule "3.IH"(1))
  have unfold: "edit_distance (x # xs) (y # y' # ys) =
      min (min (edit_distance xs (y # y' # ys) + 1) (edit_distance (x # xs) (y' # ys) + 1))
        (edit_distance xs (y' # ys) + (if x = y then 0 else 1))"
    by (rule edit_distance.simps(3))
  show ?case
    by (subst unfold) (rule min3_bound [OF a b])
qed

lemma ed_le_Cons1: "edit_distance xs ys \<le> edit_distance (x # xs) ys + 1"
  using ed_le_Cons2 [of ys xs x] by (simp add: ed_sym)

lemma ed_Cons_same: "edit_distance (x # xs) (x # ys) = edit_distance xs ys"
  using ed_le_Cons1 [of xs "x # ys" x] ed_le_Cons2 [of "x # xs" ys x]
    ed_le_Cons2 [of xs ys x] ed_le_Cons1 [of xs ys x]
  by simp

lemma ed_le_length: "edit_distance xs ys \<le> length xs + length ys"
proof (induction xs ys rule: edit_distance.induct)
  case (3 x xs y ys)
  then show ?case by (simp add: min_le_iff_disj)
qed simp_all

lemma ed_zero: "edit_distance xs ys = 0 \<Longrightarrow> xs = ys"
proof (induction xs ys rule: edit_distance.induct)
  case (3 x xs y ys)
  then show ?case by (auto simp: min_def split: if_splits)
qed simp_all


lemma ed_triangle: "edit_distance a c \<le> edit_distance a b + edit_distance b c"
proof (induction "length a + length b + length c" arbitrary: a b c rule: less_induct)
  case less
  show ?case
  proof (cases a)
    case Nil
    then show ?thesis
      using ed_length_le [of c b] by simp
  next
    case a: (Cons x xs)
    show ?thesis
    proof (cases c)
      case Nil
      then show ?thesis
        using ed_length_le [of a b] by (simp add: ed_Nil2 ed_sym [of b a])
    next
      case c: (Cons z zs)
      show ?thesis
      proof (cases b)
        case Nil
        then show ?thesis
          using ed_le_length [of a c] by (simp add: ed_Nil2)
      next
        case b: (Cons y ys)
        define dxy :: nat where "dxy = (if x = y then 0 else 1)"
        define dyz :: nat where "dyz = (if y = z then 0 else 1)"
        define dxz :: nat where "dxz = (if x = z then 0 else 1)"
        have d: "dxz \<le> dxy + dyz"
          by (simp add: dxy_def dyz_def dxz_def)
        have ab: "edit_distance a b = min (min (edit_distance xs b + 1) (edit_distance a ys + 1)) (edit_distance xs ys + dxy)"
          unfolding a b dxy_def by (rule edit_distance.simps(3))
        have bc: "edit_distance b c = min (min (edit_distance ys c + 1) (edit_distance b zs + 1)) (edit_distance ys zs + dyz)"
          unfolding b c dyz_def by (rule edit_distance.simps(3))
        have ac: "edit_distance a c = min (min (edit_distance xs c + 1) (edit_distance a zs + 1)) (edit_distance xs zs + dxz)"
          unfolding a c dxz_def by (rule edit_distance.simps(3))
        have h1: "edit_distance xs c \<le> edit_distance xs b + edit_distance b c"
          by (rule less.hyps) (simp add: a)
        have h2: "edit_distance a zs \<le> edit_distance a b + edit_distance b zs"
          by (rule less.hyps) (simp add: c)
        have h3: "edit_distance a c \<le> edit_distance a ys + edit_distance ys c"
          by (rule less.hyps) (simp add: b)
        have h4: "edit_distance a zs \<le> edit_distance a ys + edit_distance ys zs"
          by (rule less.hyps) (simp add: b c)
        have h5: "edit_distance xs c \<le> edit_distance xs ys + edit_distance ys c"
          by (rule less.hyps) (simp add: a b)
        have h6: "edit_distance xs zs \<le> edit_distance xs ys + edit_distance ys zs"
          by (rule less.hyps) (simp add: a b c)
        show ?thesis
          using d ab bc ac h1 h2 h3 h4 h5 h6 by arith
      qed
    qed
  qed
qed

lemma ed_snoc_Nil: "edit_distance (xs @ [x]) [] = length xs + 1"
  by (simp add: ed_Nil2)

lemma ed_single_snoc:
  "edit_distance [x] (ys @ [y]) =
     min (min (length ys + 2) (edit_distance [x] ys + 1)) (length ys + (if x = y then 0 else 1))"
proof (induction ys)
  case Nil
  show ?case by simp
next
  case (Cons b ys)
  have 1: "edit_distance [x] (b # ys @ [y]) =
      min (min (edit_distance [] (b # ys @ [y]) + 1) (edit_distance [x] (ys @ [y]) + 1))
        (edit_distance [] (ys @ [y]) + (if x = b then 0 else 1))"
    by (rule edit_distance.simps(3))
  have 2: "edit_distance [x] (b # ys) =
      min (min (edit_distance [] (b # ys) + 1) (edit_distance [x] ys + 1)) (edit_distance [] ys + (if x = b then 0 else 1))"
    by (rule edit_distance.simps(3))
  show ?case
    unfolding append_Cons 1 2 Cons.IH by (simp add: min_def)
qed


lemma ed_snoc_single:
  "edit_distance (xs @ [x]) [y] =
     min (min (edit_distance xs [y] + 1) (length xs + 2)) (length xs + (if x = y then 0 else 1))"
proof -
  have "edit_distance [y] (xs @ [x]) =
     min (min (length xs + 2) (edit_distance [y] xs + 1)) (length xs + (if y = x then 0 else 1))"
    by (rule ed_single_snoc)
  then show ?thesis
    by (simp add: ed_sym [of _ "[y]"] min.commute eq_commute)
qed

lemma min3_add: "min (min p q) r + (c::nat) = min (min (p + c) (q + c)) (r + c)"
  by arith

lemma min9:
  fixes a1 a2 a3 a4 a5 a6 a7 a8 a9 d e :: nat
  shows "min (min (min (min (a1 + 1) (a2 + 1)) (a3 + d) + 1)
                  (min (min (a4 + 1) (a5 + 1)) (a6 + d) + 1))
             (min (min (a7 + 1) (a8 + 1)) (a9 + d) + e) =
         min (min (min (min (a1 + 1) (a4 + 1)) (a7 + e) + 1)
                  (min (min (a2 + 1) (a5 + 1)) (a8 + e) + 1))
             (min (min (a3 + 1) (a6 + 1)) (a9 + e) + d)"
  apply (simp only: min3_add)
  apply (simp only: min.assoc min.commute min.left_commute add.assoc add.commute add.left_commute)
  done

lemma ed_snoc_snoc:
  "edit_distance (xs @ [x]) (ys @ [y]) =
     min (min (edit_distance xs (ys @ [y]) + 1) (edit_distance (xs @ [x]) ys + 1))
       (edit_distance xs ys + (if x = y then 0 else 1))"
proof (induction xs ys rule: edit_distance.induct)
  case (1 ys)
  show ?case
    using ed_single_snoc [of x ys y] by (simp add: min.commute min.left_commute)
next
  case (2 a xs)
  show ?case
    using ed_snoc_single [of "a # xs" x y] by (simp add: ed_Nil2 min.commute min.left_commute)
next
  case (3 a xs b ys)
  define dxy :: nat where "dxy = (if x = y then 0 else 1)"
  define dab :: nat where "dab = (if a = b then 0 else 1)"
  have l: "edit_distance ((a # xs) @ [x]) ((b # ys) @ [y]) =
      min (min (edit_distance (xs @ [x]) ((b # ys) @ [y]) + 1) (edit_distance ((a # xs) @ [x]) (ys @ [y]) + 1))
        (edit_distance (xs @ [x]) (ys @ [y]) + dab)"
    unfolding append_Cons dab_def by (rule edit_distance.simps(3))
  have r1: "edit_distance (a # xs) ((b # ys) @ [y]) =
      min (min (edit_distance xs ((b # ys) @ [y]) + 1) (edit_distance (a # xs) (ys @ [y]) + 1)) (edit_distance xs (ys @ [y]) + dab)"
    unfolding append_Cons dab_def by (rule edit_distance.simps(3))
  have r2: "edit_distance ((a # xs) @ [x]) (b # ys) =
      min (min (edit_distance (xs @ [x]) (b # ys) + 1) (edit_distance ((a # xs) @ [x]) ys + 1)) (edit_distance (xs @ [x]) ys + dab)"
    unfolding append_Cons dab_def by (rule edit_distance.simps(3))
  have r3: "edit_distance (a # xs) (b # ys) =
      min (min (edit_distance xs (b # ys) + 1) (edit_distance (a # xs) ys + 1)) (edit_distance xs ys + dab)"
    unfolding dab_def by (rule edit_distance.simps(3))
  note ih = "3.IH" [folded dxy_def]
  show ?case
    unfolding dxy_def [symmetric] l ih r1 r2 r3 by (rule min9)
qed

lemma ed_rev: "edit_distance (rev xs) (rev ys) = edit_distance xs ys"
proof (induction xs ys rule: edit_distance.induct)
  case (1 ys)
  show ?case by simp
next
  case (2 x xs)
  show ?case by (simp add: ed_Nil2)
next
  case (3 x xs y ys)
  have "edit_distance (rev (x # xs)) (rev (y # ys)) =
      min (min (edit_distance (rev xs) (rev (y # ys)) + 1) (edit_distance (rev (x # xs)) (rev ys) + 1))
        (edit_distance (rev xs) (rev ys) + (if x = y then 0 else 1))"
    using ed_snoc_snoc [of "rev xs" x "rev ys" y] by simp
  also have "\<dots> = min (min (edit_distance xs (y # ys) + 1) (edit_distance (x # xs) ys + 1))
        (edit_distance xs ys + (if x = y then 0 else 1))"
    unfolding "3.IH" ..
  also have "\<dots> = edit_distance (x # xs) (y # ys)"
    by (rule edit_distance.simps(3) [symmetric])
  finally show ?case .
qed

lemma fold_upt_inv:
  assumes "P lo s" and "\<And>i s. lo \<le> i \<Longrightarrow> i < hi \<Longrightarrow> P i s \<Longrightarrow> P (Suc i) (f i s)"
    and "lo \<le> hi"
  shows "P hi (fold f [lo..<hi] s)"
proof -
  have "lo \<le> k \<Longrightarrow> k \<le> hi \<Longrightarrow> P k (fold f [lo..<k] s)" for k
  proof (induction k)
    case 0
    then show ?case using assms(1) by simp
  next
    case (Suc k)
    show ?case
    proof (cases "lo \<le> k")
      case True
      with Suc have "P k (fold f [lo..<k] s)" by simp
      with True Suc.prems have "P (Suc k) (f k (fold f [lo..<k] s))"
        by (intro assms(2)) simp_all
      with True show ?thesis by simp
    next
      case False
      with Suc.prems have "lo = Suc k" by simp
      then show ?thesis using assms(1) by simp
    qed
  qed
  from this [of hi] assms(3) show ?thesis by simp
qed

lemma nth_update_if: "xs[i := x] ! j = (if i = j \<and> i < length xs then x else xs ! j)"
  by (cases "i < length xs") (simp_all add: nth_list_update list_update_beyond)

lemma shape_put: "shape m n dp \<Longrightarrow> shape m n (put dp i j v)"
  by (auto simp: shape_def put_def nth_update_if)

lemma nth_put:
  "shape m n dp \<Longrightarrow> i \<le> m \<Longrightarrow> j \<le> n \<Longrightarrow>
   put dp i j v ! i' ! j' = (if i' = i \<and> j' = j then v else dp ! i' ! j')"
  by (auto simp: shape_def put_def nth_list_update)

lemma D_0: "j \<le> length b \<Longrightarrow> D a b 0 j = j"
  by (simp add: D_def)

lemma D_0': "i \<le> length a \<Longrightarrow> D a b i 0 = i"
  by (simp add: D_def ed_Nil2)

lemma ed_snoc_same: "edit_distance (xs @ [x]) (ys @ [x]) = edit_distance xs ys"
  using ed_rev [of "xs @ [x]" "ys @ [x]"] ed_Cons_same [of x "rev xs" "rev ys"] ed_rev [of xs ys]
  by simp

lemma ed_snoc_le1: "edit_distance xs ys \<le> edit_distance (xs @ [x]) ys + 1"
  using ed_le_Cons1 [of "rev xs" "rev ys" x] ed_rev [of "xs @ [x]" ys] ed_rev [of xs ys]
  by simp

lemma ed_snoc_le2: "edit_distance xs ys \<le> edit_distance xs (ys @ [y]) + 1"
  using ed_le_Cons2 [of "rev xs" "rev ys" y] ed_rev [of xs "ys @ [y]"] ed_rev [of xs ys]
  by simp

lemma D_Suc:
  assumes "i < length a" "j < length b"
  shows "D a b (Suc i) (Suc j) =
    (if a ! i = b ! j then D a b i j
     else 1 + min (D a b i (Suc j)) (min (D a b (Suc i) j) (D a b i j)))"
proof (cases "a ! i = b ! j")
  case True
  then show ?thesis
    using assms by (simp add: D_def take_Suc_conv_app_nth ed_snoc_same)
next
  case False
  have "edit_distance (take i a @ [a ! i]) (take j b @ [b ! j]) =
      min (min (edit_distance (take i a) (take j b @ [b ! j]) + 1) (edit_distance (take i a @ [a ! i]) (take j b) + 1))
        (edit_distance (take i a) (take j b) + (if a ! i = b ! j then 0 else 1))"
    by (rule ed_snoc_snoc)
  with False show ?thesis
    using assms by (simp add: D_def take_Suc_conv_app_nth)
qed

lemma cell_D:
  assumes "filled a b k l dp" "1 \<le> k" "k \<le> length a" "1 \<le> l" "l \<le> length b"
  shows "cell a b dp k l = D a b k l"
proof -
  obtain i j where k: "k = Suc i" and l: "l = Suc j"
    using assms(2,4) by (metis Suc_le_D One_nat_def)
  have up: "dp ! i ! l = D a b i l"
    using assms by (cases "i = 0") (auto simp: filled_def k D_0)
  have left: "dp ! k ! j = D a b k j"
    using assms by (cases "j = 0") (auto simp: filled_def l D_0')
  have diag: "dp ! i ! j = D a b i j"
  proof (cases "i = 0")
    case True
    then show ?thesis using assms by (auto simp: filled_def l D_0)
  next
    case i: False
    show ?thesis
    proof (cases "j = 0")
      case True
      then show ?thesis using assms by (auto simp: filled_def k D_0')
    next
      case False
      with i assms show ?thesis by (auto simp: filled_def k l)
    qed
  qed
  have "D a b (Suc i) (Suc j) =
    (if a ! i = b ! j then D a b i j
     else 1 + min (D a b i (Suc j)) (min (D a b (Suc i) j) (D a b i j)))"
    using assms(3,5) by (intro D_Suc) (simp_all add: k l)
  then show ?thesis
    using up left diag by (simp add: cell_def k l)
qed


lemma filled_put:
  assumes "filled a b k l dp" "1 \<le> k" "k \<le> length a" "1 \<le> l" "l \<le> length b"
  shows "filled a b k (Suc l) (put dp k l (cell a b dp k l))"
proof -
  have sh: "shape (length a) (length b) dp"
    using assms(1) by (simp add: filled_def)
  note np = nth_put [OF sh assms(3) assms(5)]
  show ?thesis
    unfolding filled_def
  proof (intro conjI allI impI)
    show "shape (length a) (length b) (put dp k l (cell a b dp k l))"
      using sh by (rule shape_put)
  next
    fix i assume "i \<le> length a"
    then show "put dp k l (cell a b dp k l) ! i ! 0 = i"
      using assms by (simp add: np filled_def)
  next
    fix j assume "j \<le> length b"
    then show "put dp k l (cell a b dp k l) ! 0 ! j = j"
      using assms by (simp add: np filled_def)
  next
    fix i j assume "1 \<le> i \<and> i < k \<and> 1 \<le> j \<and> j \<le> length b"
    then show "put dp k l (cell a b dp k l) ! i ! j = D a b i j"
      using assms by (simp add: np filled_def)
  next
    fix j assume j: "1 \<le> j \<and> j < Suc l"
    show "put dp k l (cell a b dp k l) ! k ! j = D a b k j"
    proof (cases "j = l")
      case True
      then show ?thesis by (simp add: np cell_D [OF assms])
    next
      case False
      with j have "j < l" by simp
      with j assms(1) False show ?thesis by (simp add: np filled_def)
    qed
  qed
qed

lemma filled_row:
  assumes "filled a b k 1 dp" "1 \<le> k" "k \<le> length a"
  shows "filled a b (Suc k) 1
           (fold (\<lambda>j dp. put dp k j (cell a b dp k j)) [1..<length b + 1] dp)"
proof -
  have "filled a b k (length b + 1)
      (fold (\<lambda>j dp. put dp k j (cell a b dp k j)) [1..<length b + 1] dp)"
  proof (rule fold_upt_inv [where P = "\<lambda>l dp. filled a b k l dp"])
    show "filled a b k 1 dp" by (rule assms(1))
  next
    fix l s assume "1 \<le> l" "l < length b + 1" "filled a b k l s"
    then show "filled a b k (Suc l) (put s k l (cell a b s k l))"
      using assms(2,3) by (intro filled_put) simp_all
  qed simp
  then show ?thesis
    by (auto simp: filled_def less_Suc_eq)
qed

lemma filled_all:
  assumes "filled a b 1 1 dp"
  shows "filled a b (length a + 1) 1
    (fold (\<lambda>i dp. fold (\<lambda>j dp. put dp i j (cell a b dp i j)) [1..<length b + 1] dp)
       [1..<length a + 1] dp)"
proof (rule fold_upt_inv [where P = "\<lambda>k dp. filled a b k 1 dp"])
  show "filled a b 1 1 dp" by (rule assms)
next
  fix k s assume "1 \<le> k" "k < length a + 1" "filled a b k 1 s"
  then show "filled a b (Suc k) 1
      (fold (\<lambda>j dp. put dp k j (cell a b dp k j)) [1..<length b + 1] s)"
    by (intro filled_row) simp_all
qed simp

lemma filled_border:
  "filled a b 1 1
     (fold (\<lambda>j dp. put dp 0 j j) [0..<length b + 1]
       (fold (\<lambda>i dp. put dp i 0 i) [0..<length a + 1]
         (replicate (length a + 1) (replicate (length b + 1) 0))))"
proof -
  let ?m = "length a" and ?n = "length b"
  let ?dp0 = "replicate (?m + 1) (replicate (?n + 1) (0::nat))"
  let ?dp1 = "fold (\<lambda>i dp. put dp i 0 i) [0..<?m + 1] ?dp0"
  have sh0: "shape ?m ?n ?dp0"
    by (simp add: shape_def del: replicate.simps)
  have 1: "shape ?m ?n ?dp1 \<and> (\<forall>i < ?m + 1. ?dp1 ! i ! 0 = i)"
  proof (rule fold_upt_inv [where P = "\<lambda>k dp. shape ?m ?n dp \<and> (\<forall>i<k. dp ! i ! 0 = i)"])
    show "shape ?m ?n ?dp0 \<and> (\<forall>i<0. ?dp0 ! i ! 0 = i)"
      using sh0 by simp
  next
    fix k s assume k: "k < ?m + 1" and inv: "shape ?m ?n s \<and> (\<forall>i<k. s ! i ! 0 = i)"
    have np: "put s k 0 k ! i ! j = (if i = k \<and> j = 0 then k else s ! i ! j)" for i j
      using inv k by (intro nth_put [where m = ?m and n = ?n]) simp_all
    show "shape ?m ?n (put s k 0 k) \<and> (\<forall>i<Suc k. put s k 0 k ! i ! 0 = i)"
      using inv by (auto simp: shape_put np less_Suc_eq)
  qed simp
  have 2: "shape ?m ?n (fold (\<lambda>j dp. put dp 0 j j) [0..<?n + 1] ?dp1) \<and>
      (\<forall>i < ?m + 1. fold (\<lambda>j dp. put dp 0 j j) [0..<?n + 1] ?dp1 ! i ! 0 = i) \<and>
      (\<forall>j < ?n + 1. fold (\<lambda>j dp. put dp 0 j j) [0..<?n + 1] ?dp1 ! 0 ! j = j)"
  proof (rule fold_upt_inv [where P = "\<lambda>k dp. shape ?m ?n dp \<and>
      (\<forall>i < ?m + 1. dp ! i ! 0 = i) \<and> (\<forall>j<k. dp ! 0 ! j = j)"])
    show "shape ?m ?n ?dp1 \<and> (\<forall>i < ?m + 1. ?dp1 ! i ! 0 = i) \<and> (\<forall>j<0. ?dp1 ! 0 ! j = j)"
      using 1 by simp
  next
    fix k s
    assume k: "k < ?n + 1" and
      inv: "shape ?m ?n s \<and> (\<forall>i < ?m + 1. s ! i ! 0 = i) \<and> (\<forall>j<k. s ! 0 ! j = j)"
    have np: "put s 0 k k ! i ! j = (if i = 0 \<and> j = k then k else s ! i ! j)" for i j
      using inv k by (intro nth_put [where m = ?m and n = ?n]) simp_all
    show "shape ?m ?n (put s 0 k k) \<and> (\<forall>i < ?m + 1. put s 0 k k ! i ! 0 = i) \<and>
        (\<forall>j<Suc k. put s 0 k k ! 0 ! j = j)"
      using inv by (auto simp: shape_put np less_Suc_eq)
  qed simp
  from 2 show ?thesis
    by (simp add: filled_def less_Suc_eq_le)
qed

lemma levenshtein_D: "levenshtein a b = D a b (length a) (length b)"
proof -
  define dp where "dp =
    fold (\<lambda>i dp. fold (\<lambda>j dp. put dp i j (cell a b dp i j)) [1..<length b + 1] dp)
       [1..<length a + 1]
       (fold (\<lambda>j dp. put dp 0 j j) [0..<length b + 1]
         (fold (\<lambda>i dp. put dp i 0 i) [0..<length a + 1]
           (replicate (length a + 1) (replicate (length b + 1) 0))))"
  have f: "filled a b (length a + 1) 1 dp"
    unfolding dp_def by (rule filled_all) (rule filled_border)
  have "dp ! length a ! length b = D a b (length a) (length b)"
  proof (cases "length a = 0")
    case True
    with f show ?thesis by (simp add: filled_def D_0)
  next
    case a: False
    show ?thesis
    proof (cases "length b = 0")
      case True
      with f show ?thesis by (simp add: filled_def D_0')
    next
      case False
      from f have "\<forall>i j. 1 \<le> i \<and> i < length a + 1 \<and> 1 \<le> j \<and> j \<le> length b \<longrightarrow>
          dp ! i ! j = D a b i j"
        by (simp add: filled_def)
      then have "1 \<le> length a \<and> length a < length a + 1 \<and> 1 \<le> length b \<and> length b \<le> length b \<longrightarrow>
          dp ! length a ! length b = D a b (length a) (length b)"
        by blast
      with a False show ?thesis by (cases a; cases b) simp_all
    qed
  qed
  moreover have "levenshtein a b = dp ! length a ! length b"
    by (simp only: levenshtein_def Let_def dp_def)
  ultimately show ?thesis by simp
qed

lemma levenshtein_edit_distance: "levenshtein a b = edit_distance a b"
  by (simp add: levenshtein_D D_def)


text \<open>
  Claim C8.  \<open>levenshtein\<close> is a metric on strings: the distance of a string to itself
  is 0, it is symmetric and non-negative, it is 0 only for equal strings, it satisfies the
  triangle inequality, and it equals the unrestricted unit-cost edit distance.
\<close>

theorem levenshtein_metric:
  "levenshtein a a = 0 \<and>
   levenshtein a b = levenshtein b a \<and>
   0 \<le> levenshtein a b \<and>
   (levenshtein a b = 0 \<longleftrightarrow> a = b) \<and>
   levenshtein a c \<le> levenshtein a b + levenshtein b c \<and>
   levenshtein a b = edit_distance a b"
  unfolding levenshtein_edit_distance
  using ed_refl [of a] ed_sym [of a b] ed_zero [of a b] ed_triangle [of a c b] ed_refl [of b]
  by auto

section \<open>The similarity engine\<close>

lemma candidate_for_None: "\<not> admissible p l \<Longrightarrow> candidate_for p l = None"
  by (simp add: candidate_for_def admissible_def Let_def)

lemma candidate_for_Some:
  assumes "admissible p l"
  shows "\<exists>c. candidate_for p l = Some c \<and> target c = l \<and> distance c = levenshtein p l \<and>
     isTyposquat c \<and> c_reason c = None \<and>
     confidence c = (if levenshtein p l = 1 then ''high''
                     else if levenshtein p l = 2 then ''medium'' else ''low'') \<and>
     c_severity c = (if levenshtein p l = 1 then ''critical'' else ''high'') \<and>
     c_method c = Some (if hasConfusableSubstitution p l then ''confusable substitution''
                      else if isTransposition p l then ''character transposition''
                      else if levenshtein p l = 1 then ''single character difference''
                      else ''edit distance'')"
  using assms by (simp add: candidate_for_def admissible_def Let_def)

lemma candidate_for_SomeD:
  assumes "candidate_for p l = Some c"
  shows "admissible p l \<and> target c = l \<and> distance c = levenshtein p l \<and>
     confidence c = (if levenshtein p l = 1 then ''high''
                     else if levenshtein p l = 2 then ''medium'' else ''low'') \<and>
     c_severity c = (if levenshtein p l = 1 then ''critical'' else ''high'') \<and>
     c_method c = Some (if hasConfusableSubstitution p l then ''confusable substitution''
                      else if isTransposition p l then ''character transposition''
                      else if levenshtein p l = 1 then ''single character difference''
                      else ''edit distance'')"
proof (cases "admissible p l")
  case True
  from candidate_for_Some [OF True] assms True show ?thesis by auto
next
  case False
  with assms show ?thesis by (simp add: candidate_for_None)
qed

lemma hd_insort_key:
  "hd (insort_key f x ys) = (if ys = [] \<or> f x \<le> f (hd ys) then x else hd ys)"
  by (cases ys) simp_all

lemma map_filter_Cons:
  "List.map_filter g (x # xs) =
     (case g x of None \<Rightarrow> List.map_filter g xs | Some y \<Rightarrow> y # List.map_filter g xs)"
  by (simp add: List.map_filter_def split: option.splits)

lemma map_filter_Nil_iff: "List.map_filter g xs = [] \<longleftrightarrow> (\<forall>x \<in> set xs. g x = None)"
  by (induction xs) (auto simp: map_filter_Cons split: option.splits)

lemma sort_key_Nil_iff: "sort_key f xs = [] \<longleftrightarrow> xs = []"
  by (cases xs) (auto simp: insort_key.simps dest: arg_cong [where f = length])


lemma first_min_map_filter:
  assumes "List.map_filter g xs \<noteq> []"
  shows "\<exists>i < length xs. g (xs ! i) = Some (hd (sort_key f (List.map_filter g xs))) \<and>
     (\<forall>j < length xs. \<forall>c'. g (xs ! j) = Some c' \<longrightarrow>
        f (hd (sort_key f (List.map_filter g xs))) \<le> f c') \<and>
     (\<forall>j < i. \<forall>c'. g (xs ! j) = Some c' \<longrightarrow>
        f (hd (sort_key f (List.map_filter g xs))) < f c')"
  using assms
proof (induction xs)
  case Nil
  then show ?case by (simp add: List.map_filter_simps)
next
  case (Cons x xs)
  let ?rest = "List.map_filter g xs"
  show ?case
  proof (cases "g x")
    case None
    with Cons.prems have ne: "?rest \<noteq> []" by (simp add: map_filter_Cons)
    from Cons.IH [OF ne] obtain i where i: "i < length xs"
      "g (xs ! i) = Some (hd (sort_key f ?rest))"
      "\<forall>j < length xs. \<forall>c'. g (xs ! j) = Some c' \<longrightarrow> f (hd (sort_key f ?rest)) \<le> f c'"
      "\<forall>j < i. \<forall>c'. g (xs ! j) = Some c' \<longrightarrow> f (hd (sort_key f ?rest)) < f c'"
      by blast
    have eq: "List.map_filter g (x # xs) = ?rest"
      using None by (simp add: map_filter_Cons)
    show ?thesis
      unfolding eq
    proof (intro exI [of _ "Suc i"] conjI allI impI)
      show "Suc i < length (x # xs)" using i(1) by simp
      show "g ((x # xs) ! Suc i) = Some (hd (sort_key f ?rest))" using i(2) by simp
    next
      fix j c' assume "j < length (x # xs)" "g ((x # xs) ! j) = Some c'"
      then show "f (hd (sort_key f ?rest)) \<le> f c'"
        using i(3) None by (cases j) auto
    next
      fix j c' assume "j < Suc i" "g ((x # xs) ! j) = Some c'"
      then show "f (hd (sort_key f ?rest)) < f c'"
        using i(4) None by (cases j) auto
    qed
  next
    case (Some y)
    have eq: "List.map_filter g (x # xs) = y # ?rest"
      using Some by (simp add: map_filter_Cons)
    have hd_eq: "hd (sort_key f (y # ?rest)) =
        (if ?rest = [] \<or> f y \<le> f (hd (sort_key f ?rest)) then y else hd (sort_key f ?rest))"
      by (simp add: hd_insort_key sort_key_Nil_iff)
    show ?thesis
    proof (cases "?rest = []")
      case True
      then have none: "\<forall>z \<in> set xs. g z = None" by (simp add: map_filter_Nil_iff)
      show ?thesis
        unfolding eq hd_eq
      proof (intro exI [of _ 0] conjI allI impI)
        show "0 < length (x # xs)" by simp
        show "g ((x # xs) ! 0) =
            Some (if ?rest = [] \<or> f y \<le> f (hd (sort_key f ?rest)) then y else hd (sort_key f ?rest))"
          using True Some by simp
      next
        fix j c' assume "j < length (x # xs)" "g ((x # xs) ! j) = Some c'"
        then show "f (if ?rest = [] \<or> f y \<le> f (hd (sort_key f ?rest)) then y
              else hd (sort_key f ?rest)) \<le> f c'"
          using True Some none by (cases j) auto
      next
        fix j :: nat and c' assume "j < 0"
        then show "f (if ?rest = [] \<or> f y \<le> f (hd (sort_key f ?rest)) then y
              else hd (sort_key f ?rest)) < f c'"
          by simp
      qed
    next
      case ne: False
      from Cons.IH [OF ne] obtain i where i: "i < length xs"
        "g (xs ! i) = Some (hd (sort_key f ?rest))"
        "\<forall>j < length xs. \<forall>c'. g (xs ! j) = Some c' \<longrightarrow> f (hd (sort_key f ?rest)) \<le> f c'"
        "\<forall>j < i. \<forall>c'. g (xs ! j) = Some c' \<longrightarrow> f (hd (sort_key f ?rest)) < f c'"
        by blast
      show ?thesis
      proof (cases "f y \<le> f (hd (sort_key f ?rest))")
        case True
        then have h: "hd (sort_key f (y # ?rest)) = y" by (subst hd_eq) simp
        show ?thesis
          unfolding eq h
        proof (intro exI [of _ 0] conjI allI impI)
          show "0 < length (x # xs)" by simp
          show "g ((x # xs) ! 0) = Some y" using Some by simp
        next
          fix j c' assume "j < length (x # xs)" "g ((x # xs) ! j) = Some c'"
          then show "f y \<le> f c'"
            using True Some i(3) by (cases j) (auto intro: order_trans)
        next
          fix j :: nat and c' assume "j < 0"
          then show "f y < f c'" by simp
        qed
      next
        case False
        then have h: "hd (sort_key f (y # ?rest)) = hd (sort_key f ?rest)"
          using ne by (subst hd_eq) simp
        show ?thesis
          unfolding eq h
        proof (intro exI [of _ "Suc i"] conjI allI impI)
          show "Suc i < length (x # xs)" using i(1) by simp
          show "g ((x # xs) ! Suc i) = Some (hd (sort_key f ?rest))" using i(2) by simp
        next
          fix j c' assume "j < length (x # xs)" "g ((x # xs) ! j) = Some c'"
          then show "f (hd (sort_key f ?rest)) \<le> f c'"
            using False Some i(3) by (cases j) auto
        next
          fix j c' assume "j < Suc i" "g ((x # xs) ! j) = Some c'"
          then show "f (hd (sort_key f ?rest)) < f c'"
            using False Some i(4) by (cases j) auto
        qed
      qed
    qed
  qed
qed

lemma find_None_names: "find (\<lambda>m. m_name m = p) mal = None \<longleftrightarrow> p \<notin> m_name ` set mal"
  by (auto simp: find_None_iff)

lemma detectTyposquat_in_unknown:
  assumes "p \<notin> m_name ` set mal" "p \<notin> set legit"
  shows "detectTyposquat_in mal legit p =
     (if List.map_filter (candidate_for p) legit = [] then None
      else Some (hd (sort_key distance (List.map_filter (candidate_for p) legit))))"
proof -
  have "find (\<lambda>m. m_name m = p) mal = None"
    using assms(1) by (simp add: find_None_names)
  then show ?thesis
    using assms(2) by (simp add: detectTyposquat_in_def Let_def)
qed

lemma candidate_for_None_iff: "candidate_for p l = None \<longleftrightarrow> \<not> admissible p l"
proof (cases "admissible p l")
  case True
  from candidate_for_Some [OF True] show ?thesis using True by auto
next
  case False
  then show ?thesis by (simp add: candidate_for_None)
qed

lemma candidates_Nil_iff:
  "List.map_filter (candidate_for p) legit = [] \<longleftrightarrow> (\<forall>l \<in> set legit. \<not> admissible p l)"
  by (simp add: map_filter_Nil_iff candidate_for_None_iff)

lemma detectTyposquat_in_selects:
  assumes "p \<notin> m_name ` set mal" "p \<notin> set legit" "detectTyposquat_in mal legit p = Some c"
  shows "\<exists>i < length legit. candidate_for p (legit ! i) = Some c \<and>
     (\<forall>j < length legit. admissible p (legit ! j) \<longrightarrow> distance c \<le> levenshtein p (legit ! j)) \<and>
     (\<forall>j < i. admissible p (legit ! j) \<longrightarrow> distance c < levenshtein p (legit ! j))"
proof -
  let ?cs = "List.map_filter (candidate_for p) legit"
  from assms have ne: "?cs \<noteq> []" and c: "c = hd (sort_key distance ?cs)"
    by (auto simp: detectTyposquat_in_unknown split: if_splits)
  from first_min_map_filter [OF ne, of distance] obtain i where i: "i < length legit"
    "candidate_for p (legit ! i) = Some c"
    "\<forall>j < length legit. \<forall>c'. candidate_for p (legit ! j) = Some c' \<longrightarrow> distance c \<le> distance c'"
    "\<forall>j < i. \<forall>c'. candidate_for p (legit ! j) = Some c' \<longrightarrow> distance c < distance c'"
    unfolding c by blast
  show ?thesis
  proof (intro exI [of _ i] conjI allI impI)
    show "i < length legit" by (rule i(1))
    show "candidate_for p (legit ! i) = Some c" by (rule i(2))
  next
    fix j assume j: "j < length legit" and a: "admissible p (legit ! j)"
    from candidate_for_Some [OF a] obtain c' where
      "candidate_for p (legit ! j) = Some c'" "distance c' = levenshtein p (legit ! j)"
      by blast
    with i(3) j show "distance c \<le> levenshtein p (legit ! j)" by auto
  next
    fix j assume j: "j < i" and a: "admissible p (legit ! j)"
    from candidate_for_Some [OF a] obtain c' where
      "candidate_for p (legit ! j) = Some c'" "distance c' = levenshtein p (legit ! j)"
      by blast
    with i(4) j show "distance c < levenshtein p (legit ! j)" by auto
  qed
qed

lemma detectTyposquat_in_Some_iff:
  assumes "p \<notin> m_name ` set mal" "p \<notin> set legit"
  shows "detectTyposquat_in mal legit p \<noteq> None \<longleftrightarrow> (\<exists>l \<in> set legit. admissible p l)"
  using assms by (simp add: detectTyposquat_in_unknown candidates_Nil_iff)

section \<open>Evaluating the distance row by row\<close>

lemma hd_suffix_row: "hd (suffix_row xs ys) = edit_distance xs ys"
  by (cases ys) simp_all

lemma row_Nil_suffix: "row_Nil ys = suffix_row [] ys"
  by (induction ys) simp_all

lemma row_next_suffix: "row_next x ys (suffix_row xs ys) = suffix_row (x # xs) ys"
proof (induction ys)
  case Nil
  show ?case by (simp add: ed_Nil2)
next
  case (Cons y ys)
  have "row_next x (y # ys) (suffix_row xs (y # ys)) =
      row_cell x y (edit_distance xs (y # ys)) (hd (suffix_row xs ys)) (row_next x ys (suffix_row xs ys))"
    by simp
  also have "\<dots> = row_cell x y (edit_distance xs (y # ys)) (edit_distance xs ys) (suffix_row (x # xs) ys)"
    by (simp only: Cons.IH hd_suffix_row)
  also have "\<dots> = edit_distance (x # xs) (y # ys) # suffix_row (x # xs) ys"
    by (simp add: row_cell_def hd_suffix_row)
  finally show ?case by simp
qed

lemma row_suffix: "row xs ys = suffix_row xs ys"
  by (induction xs) (simp_all add: row_Nil_suffix row_next_suffix)

lemma levenshtein_row [code]: "levenshtein a b = hd (row a b)"
  by (simp add: levenshtein_edit_distance row_suffix hd_suffix_row)

lemma hamming_le_1:
  assumes "length xs = length ys" "edit_distance xs ys \<le> 1"
  shows "length (filter (\<lambda>(x, y). x \<noteq> y) (zip xs ys)) \<le> 1"
  using assms
proof (induction xs ys rule: list_induct2)
  case Nil
  show ?case by simp
next
  case (Cons x xs y ys)
  show ?case
  proof (cases "x = y")
    case True
    have "edit_distance (x # xs) (y # ys) = edit_distance xs ys"
      unfolding True by (rule ed_Cons_same)
    with Cons.prems have "edit_distance xs ys \<le> 1" by (simp del: edit_distance.simps)
    with Cons.IH True show ?thesis by simp
  next
    case False
    have e: "edit_distance (x # xs) (y # ys) =
        min (min (edit_distance xs (y # ys) + 1) (edit_distance (x # xs) ys + 1))
          (edit_distance xs ys + (if x = y then 0 else 1))"
      by (rule edit_distance.simps(3))
    have 1: "edit_distance xs (y # ys) \<noteq> 0"
    proof
      assume "edit_distance xs (y # ys) = 0"
      then have "xs = y # ys" by (rule ed_zero)
      with Cons.hyps show False by simp
    qed
    have 2: "edit_distance (x # xs) ys \<noteq> 0"
    proof
      assume "edit_distance (x # xs) ys = 0"
      then have "x # xs = ys" by (rule ed_zero)
      with Cons.hyps show False by auto
    qed
    from Cons.prems(1) e 1 2 False have "edit_distance xs ys = 0"
      by (simp del: edit_distance.simps add: min_def split: if_splits)
    then have "xs = ys" by (rule ed_zero)
    then have "filter (\<lambda>(x, y). x \<noteq> y) (zip xs ys) = []"
      by (auto simp: filter_empty_conv in_set_zip)
    with False show ?thesis by simp
  qed
qed

lemma isTransposition_dist_1:
  assumes "levenshtein a b = 1"
  shows "isTransposition a b"
proof -
  from assms have e: "edit_distance a b = 1" by (simp add: levenshtein_edit_distance)
  have "length b \<le> length a + 1" using ed_length_le [of b a] e by simp
  moreover have "length a \<le> length b + 1" using ed_length_le [of a b] e by (simp add: ed_sym [of b a])
  moreover have "length a = length b \<Longrightarrow> length (filter (\<lambda>(x, y). x \<noteq> y) (zip a b)) \<le> 2"
    using hamming_le_1 [of a b] e by simp
  ultimately show ?thesis by (auto simp: isTransposition_def)
qed

lemma candidate_method_not_single:
  assumes "candidate_for p l = Some c"
  shows "c_method c \<noteq> Some ''single character difference''"
proof -
  note d = candidate_for_SomeD [OF assms]
  show ?thesis
  proof (cases "levenshtein p l = 1")
    case True
    then have "isTransposition p l" by (rule isTransposition_dist_1)
    with d show ?thesis by simp
  next
    case False
    with d show ?thesis by simp
  qed
qed

lemma single_character_difference_unreachable:
  "detectTyposquat p = Some c \<Longrightarrow> c_method c \<noteq> Some ''single character difference''"
proof (cases "p \<in> m_name ` set KNOWN_MALICIOUS")
  case True
  assume c: "detectTyposquat p = Some c"
  from True have "find (\<lambda>m. m_name m = p) KNOWN_MALICIOUS \<noteq> None"
    by (simp add: find_None_names)
  with c show ?thesis
    by (auto simp: detectTyposquat_def detectTyposquat_in_def)
next
  case False
  assume c: "detectTyposquat p = Some c"
  show ?thesis
  proof (cases "p \<in> set KNOWN_LEGITIMATE_PACKAGES")
    case True
    with c False show ?thesis
      by (simp add: detectTyposquat_def detectTyposquat_in_def find_None_names [THEN iffD2])
  next
    case legit: False
    from detectTyposquat_in_selects [OF False legit c [unfolded detectTyposquat_def]]
    obtain i where "candidate_for p (KNOWN_LEGITIMATE_PACKAGES ! i) = Some c" by blast
    then show ?thesis by (rule candidate_method_not_single)
  qed
qed

lemma awx_unknown:
  "''mcp-server-awx'' \<notin> m_name ` set KNOWN_MALICIOUS"
  "''mcp-server-awx'' \<notin> set KNOWN_LEGITIMATE_PACKAGES"
  by code_simp+

lemma awx_result:
  "detectTyposquat ''mcp-server-awx'' =
     Some \<lparr>isTyposquat = True, confidence = ''high'', target = ''mcp-server-aws'',
           c_reason = None, c_severity = ''critical'', distance = 1,
           similarity = Some (13 / 14), c_method = Some ''character transposition''\<rparr>"
  by code_simp

lemma awx_admissible: "admissible ''mcp-server-awx'' ''mcp-server-aws''"
  by code_simp

lemma axp_unknown:
  "''mcp-server-axp'' \<notin> m_name ` set KNOWN_MALICIOUS"
  "''mcp-server-axp'' \<notin> set KNOWN_LEGITIMATE_PACKAGES"
  by code_simp+

lemma axp_result:
  "detectTyposquat ''mcp-server-axp'' =
     Some \<lparr>isTyposquat = True, confidence = ''medium'', target = ''mcp-server-aws'',
           c_reason = None, c_severity = ''high'', distance = 2,
           similarity = Some (6 / 7), c_method = Some ''character transposition''\<rparr>"
  by code_simp

lemma axp_admissible:
  "admissible ''mcp-server-axp'' ''mcp-server-aws''"
  "admissible ''mcp-server-axp'' ''mcp-server-gcp''"
  "levenshtein ''mcp-server-axp'' ''mcp-server-aws'' = 2"
  "levenshtein ''mcp-server-axp'' ''mcp-server-gcp'' = 2"
  by code_simp+

text \<open>
  Claim C2.  For a name that is neither known-malicious nor known-legitimate, the loop
  pushes a candidate for a legitimate name exactly when that name is admissible, the engine
  returns a candidate exactly when some legitimate name is admissible, and a returned
  candidate has distance 1, 2 or 3 with confidence high, medium, low and severity critical
  for distance 1, high otherwise.
\<close>

theorem detectTyposquat_admissible:
  assumes "packageName \<notin> m_name ` set KNOWN_MALICIOUS"
    and "packageName \<notin> set KNOWN_LEGITIMATE_PACKAGES"
  shows "(\<forall>legit. candidate_for packageName legit \<noteq> None \<longleftrightarrow> admissible packageName legit) \<and>
    (detectTyposquat packageName \<noteq> None \<longleftrightarrow>
       (\<exists>legit \<in> set KNOWN_LEGITIMATE_PACKAGES. admissible packageName legit)) \<and>
    (\<forall>c. detectTyposquat packageName = Some c \<longrightarrow>
       target c \<in> set KNOWN_LEGITIMATE_PACKAGES \<and> admissible packageName (target c) \<and>
       distance c = levenshtein packageName (target c) \<and>
       (distance c = 1 \<or> distance c = 2 \<or> distance c = 3) \<and>
       confidence c = (if distance c = 1 then ''high''
                       else if distance c = 2 then ''medium'' else ''low'') \<and>
       c_severity c = (if distance c = 1 then ''critical'' else ''high''))"
proof (intro conjI allI impI)
  fix legit
  show "candidate_for packageName legit \<noteq> None \<longleftrightarrow> admissible packageName legit"
    by (simp add: candidate_for_None_iff)
next
  show "detectTyposquat packageName \<noteq> None \<longleftrightarrow>
       (\<exists>legit \<in> set KNOWN_LEGITIMATE_PACKAGES. admissible packageName legit)"
    unfolding detectTyposquat_def using assms by (rule detectTyposquat_in_Some_iff)
next
  fix c assume c: "detectTyposquat packageName = Some c"
  from detectTyposquat_in_selects [OF assms c [unfolded detectTyposquat_def]]
  obtain i where i: "i < length KNOWN_LEGITIMATE_PACKAGES"
    "candidate_for packageName (KNOWN_LEGITIMATE_PACKAGES ! i) = Some c"
    by blast
  note d = candidate_for_SomeD [OF i(2)]
  from d have t: "target c = KNOWN_LEGITIMATE_PACKAGES ! i" by simp
  show "target c \<in> set KNOWN_LEGITIMATE_PACKAGES" using i(1) t by simp
  show "admissible packageName (target c)" using d by simp
  show "distance c = levenshtein packageName (target c)" using d by simp
  from d have "0 < distance c \<and> distance c \<le> 3" by (simp add: admissible_def)
  then show "distance c = 1 \<or> distance c = 2 \<or> distance c = 3" by arith
  show "confidence c = (if distance c = 1 then ''high''
                       else if distance c = 2 then ''medium'' else ''low'')"
    using d by simp
  show "c_severity c = (if distance c = 1 then ''critical'' else ''high'')"
    using d by simp
qed

theorem detectTyposquat_admissible_witness:
  "''mcp-server-awx'' \<notin> m_name ` set KNOWN_MALICIOUS \<and>
   ''mcp-server-awx'' \<notin> set KNOWN_LEGITIMATE_PACKAGES \<and>
   admissible ''mcp-server-awx'' ''mcp-server-aws'' \<and>
   candidate_for ''mcp-server-awx'' ''mcp-server-aws'' \<noteq> None \<and>
   (\<exists>c. detectTyposquat ''mcp-server-awx'' = Some c \<and> distance c = 1 \<and>
      confidence c = ''high'' \<and> c_severity c = ''critical'')"
  using detectTyposquat_admissible [OF awx_unknown] awx_unknown awx_admissible awx_result
  by simp

text \<open>
  Claim C6.  For a name that reaches the candidate loop and has an admissible candidate,
  the engine returns the candidate of an admissible legitimate name at some table position
  \<open>i\<close>; no admissible name has a smaller distance, and every admissible name before
  position \<open>i\<close> has a strictly larger one: of the closest names the earliest in the table
  wins.
\<close>

theorem detectTyposquat_closest_first:
  assumes "packageName \<notin> m_name ` set KNOWN_MALICIOUS"
    and "packageName \<notin> set KNOWN_LEGITIMATE_PACKAGES"
    and "\<exists>legit \<in> set KNOWN_LEGITIMATE_PACKAGES. admissible packageName legit"
  shows "\<exists>c i. detectTyposquat packageName = Some c \<and> i < length KNOWN_LEGITIMATE_PACKAGES \<and>
     target c = KNOWN_LEGITIMATE_PACKAGES ! i \<and>
     admissible packageName (KNOWN_LEGITIMATE_PACKAGES ! i) \<and>
     distance c = levenshtein packageName (KNOWN_LEGITIMATE_PACKAGES ! i) \<and>
     (\<forall>j < length KNOWN_LEGITIMATE_PACKAGES. admissible packageName (KNOWN_LEGITIMATE_PACKAGES ! j) \<longrightarrow>
        distance c \<le> levenshtein packageName (KNOWN_LEGITIMATE_PACKAGES ! j)) \<and>
     (\<forall>j < i. admissible packageName (KNOWN_LEGITIMATE_PACKAGES ! j) \<longrightarrow>
        distance c < levenshtein packageName (KNOWN_LEGITIMATE_PACKAGES ! j))"
proof -
  have "detectTyposquat_in KNOWN_MALICIOUS KNOWN_LEGITIMATE_PACKAGES packageName \<noteq> None"
    using detectTyposquat_in_Some_iff [OF assms(1,2)] assms(3) by blast
  then obtain c where c: "detectTyposquat_in KNOWN_MALICIOUS KNOWN_LEGITIMATE_PACKAGES packageName = Some c"
    by blast
  from detectTyposquat_in_selects [OF assms(1,2) c] obtain i where
    i: "i < length KNOWN_LEGITIMATE_PACKAGES"
      "candidate_for packageName (KNOWN_LEGITIMATE_PACKAGES ! i) = Some c"
      "\<forall>j < length KNOWN_LEGITIMATE_PACKAGES. admissible packageName (KNOWN_LEGITIMATE_PACKAGES ! j) \<longrightarrow>
        distance c \<le> levenshtein packageName (KNOWN_LEGITIMATE_PACKAGES ! j)"
      "\<forall>j < i. admissible packageName (KNOWN_LEGITIMATE_PACKAGES ! j) \<longrightarrow>
        distance c < levenshtein packageName (KNOWN_LEGITIMATE_PACKAGES ! j)"
    by blast
  note d = candidate_for_SomeD [OF i(2)]
  show ?thesis
  proof (intro exI [of _ c] exI [of _ i] conjI)
    show "detectTyposquat packageName = Some c" using c by (simp add: detectTyposquat_def)
    show "i < length KNOWN_LEGITIMATE_PACKAGES" by (rule i(1))
    show "target c = KNOWN_LEGITIMATE_PACKAGES ! i" using d by simp
    show "admissible packageName (KNOWN_LEGITIMATE_PACKAGES ! i)" using d by simp
    show "distance c = levenshtein packageName (KNOWN_LEGITIMATE_PACKAGES ! i)" using d by simp
  qed (rule i(3), rule i(4))
qed

lemma Some_inject_sym: "Some x = Some y \<Longrightarrow> y = x"
  by simp

theorem detectTyposquat_closest_first_witness:
  "''mcp-server-axp'' \<notin> m_name ` set KNOWN_MALICIOUS \<and>
   ''mcp-server-axp'' \<notin> set KNOWN_LEGITIMATE_PACKAGES \<and>
   admissible ''mcp-server-axp'' ''mcp-server-aws'' \<and> admissible ''mcp-server-axp'' ''mcp-server-gcp'' \<and>
   levenshtein ''mcp-server-axp'' ''mcp-server-aws'' = levenshtein ''mcp-server-axp'' ''mcp-server-gcp'' \<and>
   KNOWN_LEGITIMATE_PACKAGES ! 31 = ''mcp-server-aws'' \<and> KNOWN_LEGITIMATE_PACKAGES ! 32 = ''mcp-server-gcp'' \<and>
   (\<exists>c i. detectTyposquat ''mcp-server-axp'' = Some c \<and> target c = ''mcp-server-aws'' \<and>
      distance c = 2 \<and> target c = KNOWN_LEGITIMATE_PACKAGES ! i)"
proof -
  have "''mcp-server-aws'' \<in> set KNOWN_LEGITIMATE_PACKAGES"
    by code_simp
  then have ex: "\<exists>legit \<in> set KNOWN_LEGITIMATE_PACKAGES. admissible ''mcp-server-axp'' legit"
    using axp_admissible(1) by blast
  have nth: "KNOWN_LEGITIMATE_PACKAGES ! 31 = ''mcp-server-aws''"
    "KNOWN_LEGITIMATE_PACKAGES ! 32 = ''mcp-server-gcp''"
    by code_simp+
  from detectTyposquat_closest_first [OF axp_unknown ex] obtain c i where
    ci: "detectTyposquat ''mcp-server-axp'' = Some c" "target c = KNOWN_LEGITIMATE_PACKAGES ! i"
    by blast
  from ci(1) have c: "c = \<lparr>isTyposquat = True, confidence = ''medium'', target = ''mcp-server-aws'',
           c_reason = None, c_severity = ''high'', distance = 2,
           similarity = Some (6 / 7), c_method = Some ''character transposition''\<rparr>"
    unfolding axp_result by (rule Some_inject_sym)
  have tc: "target c = ''mcp-server-aws''" and dc: "distance c = 2"
    unfolding c by simp_all
  from ci tc dc have last: "\<exists>c i. detectTyposquat ''mcp-server-axp'' = Some c \<and>
      target c = ''mcp-server-aws'' \<and> distance c = 2 \<and> target c = KNOWN_LEGITIMATE_PACKAGES ! i"
    by blast
  have eq: "levenshtein ''mcp-server-axp'' ''mcp-server-aws'' = levenshtein ''mcp-server-axp'' ''mcp-server-gcp''"
    unfolding axp_admissible(3,4) ..
  from axp_unknown axp_admissible(1,2) eq nth last show ?thesis
    by (intro conjI)
qed



text \<open>
  Claim C7, evaluated.  \<open>mcp-server-awx\<close> is at distance 1 from \<open>mcp-server-aws\<close> and
  from no other legitimate name, no confusable pair turns one into the other, and no two
  characters are swapped; the method reported is \<open>character transposition\<close>.  By
  \<open>single_character_difference_unreachable\<close> the label \<open>single character difference\<close>
  is never reported for any name.
\<close>

theorem detectTyposquat_single_char_label:
  "detectTyposquat ''mcp-server-awx'' =
     Some \<lparr>isTyposquat = True, confidence = ''high'', target = ''mcp-server-aws'',
           c_reason = None, c_severity = ''critical'', distance = 1,
           similarity = Some (13 / 14), c_method = Some ''character transposition''\<rparr> \<and>
   filter (\<lambda>l. levenshtein ''mcp-server-awx'' l = 1) KNOWN_LEGITIMATE_PACKAGES = [''mcp-server-aws''] \<and>
   \<not> hasConfusableSubstitution ''mcp-server-awx'' ''mcp-server-aws''"
proof -
  have f: "filter (\<lambda>l. levenshtein ''mcp-server-awx'' l = 1) KNOWN_LEGITIMATE_PACKAGES =
      [''mcp-server-aws'']"
    by code_simp
  have h: "\<not> hasConfusableSubstitution ''mcp-server-awx'' ''mcp-server-aws''"
    by code_simp
  from awx_result f h show ?thesis by (intro conjI)
qed

section \<open>The severity histogram\<close>

lemma fold_count_critical:
  "critical (fold count_finding fs h) =
     critical h + length (filter (\<lambda>f. severity f = ''critical'') fs)"
  by (induction fs arbitrary: h) (simp_all add: count_finding_def)

lemma fold_count_high:
  "high (fold count_finding fs h) = high h + length (filter (\<lambda>f. severity f = ''high'') fs)"
  by (induction fs arbitrary: h) (simp_all add: count_finding_def)

lemma fold_count_medium:
  "medium (fold count_finding fs h) =
     medium h + length (filter (\<lambda>f. severity f = ''medium'') fs)"
  by (induction fs arbitrary: h) (simp_all add: count_finding_def)

lemma fold_count_low:
  "low (fold count_finding fs h) = low h + length (filter (\<lambda>f. severity f = ''low'') fs)"
  by (induction fs arbitrary: h) (simp_all add: count_finding_def)

lemma count_finding_skip:
  "severity f \<notin> {''critical'', ''high'', ''medium'', ''low''} \<Longrightarrow> count_finding f h = h"
  by (simp add: count_finding_def)

text \<open>
  Claim C3, as the code has it.  Each of the four counters equals the number of findings
  of its severity, and a finding whose severity is outside the five-value enum is skipped:
  the histogram is the same with and without it, and no error is raised.
\<close>

theorem aggregate_counts:
  "critical (aggregate fs) = length (filter (\<lambda>f. severity f = ''critical'') fs) \<and>
   high (aggregate fs) = length (filter (\<lambda>f. severity f = ''high'') fs) \<and>
   medium (aggregate fs) = length (filter (\<lambda>f. severity f = ''medium'') fs) \<and>
   low (aggregate fs) = length (filter (\<lambda>f. severity f = ''low'') fs) \<and>
   (severity f \<notin> {''critical'', ''high'', ''medium'', ''low'', ''info''} \<longrightarrow>
      aggregate (fs @ f # gs) = aggregate (fs @ gs))"
proof -
  have "severity f \<notin> {''critical'', ''high'', ''medium'', ''low'', ''info''} \<Longrightarrow>
      count_finding f h = h" for h
    by (rule count_finding_skip) simp
  then have "severity f \<notin> {''critical'', ''high'', ''medium'', ''low'', ''info''} \<Longrightarrow>
      aggregate (fs @ f # gs) = aggregate (fs @ gs)"
    by (simp add: aggregate_def)
  then show ?thesis
    by (simp add: aggregate_def fold_count_critical fold_count_high fold_count_medium
        fold_count_low)
qed

theorem aggregate_counts_witness:
  "severity \<lparr>server = ''s'', package = None, ftype = ''t'', severity = ''severe'',
      title = ''x'', detail = ''y'', advice = ''z'', fvalue = None\<rparr>
     \<notin> {''critical'', ''high'', ''medium'', ''low'', ''info''} \<and>
   aggregate ([] @ \<lparr>server = ''s'', package = None, ftype = ''t'', severity = ''severe'',
      title = ''x'', detail = ''y'', advice = ''z'', fvalue = None\<rparr> # []) = aggregate ([] @ [])"
  using aggregate_counts [where fs = "[]" and gs = "[]" and
      f = "\<lparr>server = ''s'', package = None, ftype = ''t'', severity = ''severe'',
        title = ''x'', detail = ''y'', advice = ''z'', fvalue = None\<rparr>"]
  by simp

text \<open>
  Claim C3 as written has the histogram sum to the number of findings.  The finding
  that \<open>lookupPackage\<close> reports when the registry cannot be reached has severity
  \<open>info\<close>; the histogram of a scan with that one finding is all zero.
\<close>

theorem aggregate_sum_counterexample:
  "critical (aggregate [\<lparr>server = ''s'', package = Some ''p'', ftype = ''registry_registry_unavailable'',
       severity = ''info'', title = ''npm registry check unavailable'',
       detail = ''Could not reach registry: Request timed out'',
       advice = ''Run with network access to enable live registry checks.'', fvalue = None\<rparr>]) +
   high (aggregate [\<lparr>server = ''s'', package = Some ''p'', ftype = ''registry_registry_unavailable'',
       severity = ''info'', title = ''npm registry check unavailable'',
       detail = ''Could not reach registry: Request timed out'',
       advice = ''Run with network access to enable live registry checks.'', fvalue = None\<rparr>]) +
   medium (aggregate [\<lparr>server = ''s'', package = Some ''p'', ftype = ''registry_registry_unavailable'',
       severity = ''info'', title = ''npm registry check unavailable'',
       detail = ''Could not reach registry: Request timed out'',
       advice = ''Run with network access to enable live registry checks.'', fvalue = None\<rparr>]) +
   low (aggregate [\<lparr>server = ''s'', package = Some ''p'', ftype = ''registry_registry_unavailable'',
       severity = ''info'', title = ''npm registry check unavailable'',
       detail = ''Could not reach registry: Request timed out'',
       advice = ''Run with network access to enable live registry checks.'', fvalue = None\<rparr>])
   \<noteq> length [\<lparr>server = ''s'', package = Some ''p'', ftype = ''registry_registry_unavailable'',
       severity = ''info'', title = ''npm registry check unavailable'',
       detail = ''Could not reach registry: Request timed out'',
       advice = ''Run with network access to enable live registry checks.'', fvalue = None\<rparr>]"
  by (simp add: aggregate_def count_finding_def)

section \<open>Masking of reported credentials\<close>

text \<open>Every finding of \<open>scanValue\<close> reports the masked value of the whole string.  The
  masking keeps a string of fewer than seven characters as it is, keeps \<open>:\<close> and
  \<open>/\<close>, and replaces a leading run of at least seven characters without \<open>:\<close>,
  \<open>/\<close>, \<open>@\<close> and white space by its first three characters and \<open>****\<close>.\<close>

lemma scanValue_fvalue: "f \<in> set (scanValue val path) \<Longrightarrow> fvalue f = Some (mask_value val)"
  by (auto simp: scanValue_def credential_finding_def)

lemma sep1_sep2: "sep1 c \<Longrightarrow> sep2 c"
  by (auto simp: sep1_def sep2_def)

lemma mask_value_short: "length s < 7 \<Longrightarrow> mask_value s = s"
proof (induction s)
  case Nil
  show ?case by (subst mask_value.simps) simp
next
  case (Cons c s)
  then have "mask_value s = s" by simp
  moreover have "\<not> mask_match (c # s)"
    using Cons.prems by (simp add: mask_match_def)
  ultimately show ?case by (subst mask_value.simps) simp
qed

lemma mask_value_sep: "sep1 c \<Longrightarrow> mask_value (c # s) = c # mask_value s"
proof -
  assume "sep1 c"
  then have "\<not> mask_match (c # s)"
    by (simp add: mask_match_def take_Suc_Cons numeral_3_eq_3)
  then show ?thesis by (subst mask_value.simps) simp
qed

lemma mask_value_token:
  assumes "\<forall>c \<in> set u. \<not> sep2 c" "7 \<le> length u" "v = [] \<or> sep2 (hd v)"
  shows "mask_value (u @ v) = take 3 u @ ''****'' @ mask_value v"
proof -
  have t3: "take 3 (u @ v) = take 3 u" and d3: "drop 3 (u @ v) = drop 3 u @ v"
    using assms(2) by simp_all
  have t4: "take 4 (drop 3 u @ v) = take 4 (drop 3 u)"
    using assms(2) by simp
  have a: "list_all (\<lambda>c. \<not> sep1 c) (take 3 u)"
    using assms(1) sep1_sep2 by (auto simp: list_all_iff dest: in_set_takeD)
  have b: "list_all (\<lambda>c. \<not> sep2 c) (take 4 (drop 3 u))"
    using assms(1) by (auto simp: list_all_iff dest: in_set_takeD in_set_dropD)
  have m: "mask_match (u @ v)"
    using assms(2) a b by (simp add: mask_match_def t3 d3 t4)
  have "dropWhile (\<lambda>c. \<not> sep2 c) (drop 3 u @ v) = dropWhile (\<lambda>c. \<not> sep2 c) v"
    using assms(1) by (intro dropWhile_append2) (auto dest: in_set_dropD)
  also have "\<dots> = v"
    using assms(3) by (cases v) auto
  finally have dw: "dropWhile (\<lambda>c. \<not> sep2 c) (drop 3 (u @ v)) = v"
    unfolding d3 .
  have ne: "u @ v \<noteq> []"
    using assms(2) by auto
  show ?thesis
    by (subst mask_value.simps) (simp only: ne m dw t3 if_False if_True)
qed

text \<open>
  Claim C5.  The claim says that the reported value replaces the matched substring
  except for its first three characters and never holds the secret in full, and the
  comment in \<open>scanValue\<close> says ``Mask the credential in the output''.  The code
  applies the replacement \<open>/([^:\/]{3})[^:\/\s@]{4,}/g\<close> to the whole value, and a
  match needs seven characters of which the last four are none of \<open>:\<close>, \<open>/\<close>,
  \<open>@\<close> and white space.  For the argument \<open>redis://:secret@localhost:6379\<close> of a
  server \<open>cache\<close> the Redis rule matches, on the substring
  \<open>redis://:secret@\<close>, and the one finding reports
  \<open>redis://:secret@****:6379\<close>: the password and the whole matched substring are
  still there, and the host name is what was replaced.  The inlined-secret rule of the
  same file reports the first four characters of such a value and nothing else.  On the
  claim's own example \<open>sk-abcdefghijklmnopqrst1234\<close> the code reports \<open>sk-****\<close>.
\<close>

theorem scanValue_leaks_secret:
  "pat_test (pattern (CREDENTIAL_PATTERNS ! 3)) ''redis://:secret@localhost:6379'' \<and>
   pat_test (pattern (CREDENTIAL_PATTERNS ! 3)) ''redis://:secret@'' \<and>
   map title (scanValue ''redis://:secret@localhost:6379'' ''cache.args[0]'') =
     [''Redis credentials detected in config''] \<and>
   map fvalue (scanValue ''redis://:secret@localhost:6379'' ''cache.args[0]'') =
     [Some ''redis://:secret@****:6379''] \<and>
   startsWith ''redis://:secret@****:6379'' ''redis://:secret@'' \<and>
   includes_str ''redis://:secret@****:6379'' ''secret'' \<and>
   fvalue (inline_secret_finding ''cache'' ''REDIS_URL'' ''redis://:secret@localhost:6379'') =
     Some ''redi****'' \<and>
   map fvalue (scanValue ''sk-abcdefghijklmnopqrst1234'' ''cache.args[0]'') = [Some ''sk-****'']"
  by code_simp

section \<open>Deduplication\<close>

text \<open>The filter through \<open>seen\<close> keeps a sublist whose keys are distinct and, for
  every key, the first finding that has it.\<close>

lemma dedup_subseq: "subseq (dedup seen fs) fs"
  by (induction fs arbitrary: seen) (auto intro: subseq_Cons')

lemma dedup_set_subset: "set (dedup seen fs) \<subseteq> set fs"
  by (induction fs arbitrary: seen) auto

lemma dedup_keys_fresh: "f \<in> set (dedup seen fs) \<Longrightarrow> dedup_key f \<notin> set seen"
proof (induction fs arbitrary: seen)
  case Nil
  then show ?case by simp
next
  case (Cons g fs)
  show ?case
  proof (cases "dedup_key g \<in> set seen")
    case True
    with Cons.prems have "f \<in> set (dedup seen fs)" by simp
    then show ?thesis by (rule Cons.IH)
  next
    case False
    with Cons.prems have "f = g \<or> f \<in> set (dedup (dedup_key g # seen) fs)" by simp
    then show ?thesis
    proof
      assume "f = g"
      with False show ?thesis by simp
    next
      assume "f \<in> set (dedup (dedup_key g # seen) fs)"
      then have "dedup_key f \<notin> set (dedup_key g # seen)" by (rule Cons.IH)
      then show ?thesis by simp
    qed
  qed
qed

lemma dedup_keys_distinct: "distinct (map dedup_key (dedup seen fs))"
proof (induction fs arbitrary: seen)
  case Nil
  show ?case by simp
next
  case (Cons f fs)
  show ?case
  proof (cases "dedup_key f \<in> set seen")
    case True
    then show ?thesis using Cons.IH by simp
  next
    case False
    have "dedup_key f \<notin> dedup_key ` set (dedup (dedup_key f # seen) fs)"
    proof
      assume "dedup_key f \<in> dedup_key ` set (dedup (dedup_key f # seen) fs)"
      then obtain g where g: "g \<in> set (dedup (dedup_key f # seen) fs)" "dedup_key f = dedup_key g"
        by blast
      from dedup_keys_fresh [OF g(1)] g(2) show False by simp
    qed
    with False show ?thesis using Cons.IH [of "dedup_key f # seen"] by simp
  qed
qed

lemma dedup_find:
  assumes "\<And>x. x \<in> set fs \<Longrightarrow> P x \<Longrightarrow> dedup_key x \<notin> set seen"
    and "\<And>x y. x \<in> set fs \<Longrightarrow> y \<in> set fs \<Longrightarrow> dedup_key x = dedup_key y \<Longrightarrow> P x \<Longrightarrow> P y"
  shows "find P (dedup seen fs) = find P fs"
  using assms
proof (induction fs arbitrary: seen)
  case Nil
  show ?case by simp
next
  case (Cons f fs)
  have cls: "\<And>x y. x \<in> set fs \<Longrightarrow> y \<in> set fs \<Longrightarrow> dedup_key x = dedup_key y \<Longrightarrow> P x \<Longrightarrow> P y"
    by (rule Cons.prems(2)) simp_all
  show ?case
  proof (cases "dedup_key f \<in> set seen")
    case True
    have nP: "\<not> P f"
    proof
      assume "P f"
      then have "dedup_key f \<notin> set seen" by (intro Cons.prems(1)) simp
      with True show False by contradiction
    qed
    have "find P (dedup seen fs) = find P fs"
    proof (rule Cons.IH)
      fix x assume "x \<in> set fs" "P x"
      then show "dedup_key x \<notin> set seen" by (intro Cons.prems(1)) simp_all
    qed (rule cls)
    with nP True show ?thesis by simp
  next
    case False
    show ?thesis
    proof (cases "P f")
      case True
      with False show ?thesis by simp
    next
      case nP: False
      have "find P (dedup (dedup_key f # seen) fs) = find P fs"
      proof (rule Cons.IH)
        fix x assume x: "x \<in> set fs" "P x"
        have "dedup_key x \<noteq> dedup_key f"
        proof
          assume "dedup_key x = dedup_key f"
          with x have "P f" by (intro Cons.prems(2) [of x f]) simp_all
          with nP show False by contradiction
        qed
        moreover have "dedup_key x \<notin> set seen"
          using x by (intro Cons.prems(1)) simp_all
        ultimately show "dedup_key x \<notin> set (dedup_key f # seen)" by simp
      qed (rule cls)
      with False nP show ?thesis by simp
    qed
  qed
qed

lemma dedup_pairs_distinct: "distinct (map dedup_pair (dedup seen fs))"
proof -
  have "dedup_key = (\<lambda>(t, d). t @ '':'' @ d) \<circ> dedup_pair"
    by (rule ext) (simp add: dedup_key_def dedup_pair_def)
  then have "distinct (map ((\<lambda>(t, d). t @ '':'' @ d) \<circ> dedup_pair) (dedup seen fs))"
    using dedup_keys_distinct [of seen fs] by simp
  then have "distinct (dedup seen fs) \<and>
      inj_on ((\<lambda>(t, d). t @ '':'' @ d) \<circ> dedup_pair) (set (dedup seen fs))"
    by (simp only: distinct_map)
  then have "distinct (dedup seen fs) \<and> inj_on dedup_pair (set (dedup seen fs))"
    by (blast intro: inj_on_imageI2)
  then show ?thesis by (simp only: distinct_map)
qed

text \<open>The key \<open>title:detail\<close> of the credential scan is as fine as the pair: a title
  of the pattern, permission and transport rules holds no \<open>:\<close>, and the title and detail
  of an inlined-secret finding are fixed by the environment key.\<close>

lemma credential_titles_fixed:
  "list_all (\<lambda>rule. fixed_title (r_type rule @ '' detected in config'')) CREDENTIAL_PATTERNS"
  by code_simp

lemma permission_titles_fixed:
  "list_all (\<lambda>rule. fixed_title (r_type rule)) DANGEROUS_PERMISSIONS"
  by code_simp

lemma transport_titles_fixed:
  "fixed_title ''Non-HTTPS URL detected''"
  "fixed_title ''SSE transport without visible authentication''"
  by code_simp+

lemma scanValue_fixed: "f \<in> set (scanValue val path) \<Longrightarrow> fixed_title (title f)"
  using credential_titles_fixed
  by (auto simp: scanValue_def credential_finding_def list_all_iff)

lemma scanPermissions_fixed: "f \<in> set (scanPermissions as e n) \<Longrightarrow> fixed_title (title f)"
  using permission_titles_fixed
  by (auto simp: scanPermissions_def permission_finding_def list_all_iff Let_def)

lemma scanTransport_fixed: "f \<in> set (scanTransport cfg n) \<Longrightarrow> fixed_title (title f)"
  using transport_titles_fixed
  by (auto simp: scanTransport_def Let_def split: if_splits)

lemma scanEnvValues_shape:
  assumes "f \<in> set (scanEnvValues e n)"
  shows "fixed_title (title f) \<or>
    (\<exists>key. title f = ''Secret value inlined for '' @ key \<and>
       detail f = n @ ''.env.'' @ key @ '' contains a direct value instead of an env reference'')"
proof -
  from assms obtain key val where
    "f \<in> set ((if sensitiveKeys key \<and> \<not> startsWith val ''$'' \<and> \<not> startsWith val ''${'' \<and>
           length val > 5
        then [inline_secret_finding n key val] else []) @ scanValue val (env_path n key))"
    by (auto simp: scanEnvValues_def)
  then have "f = inline_secret_finding n key val \<or> f \<in> set (scanValue val (env_path n key))"
    by (auto split: if_splits)
  then show ?thesis
  proof
    assume "f = inline_secret_finding n key val"
    then have "title f = ''Secret value inlined for '' @ key \<and>
       detail f = n @ ''.env.'' @ key @ '' contains a direct value instead of an env reference''"
      by (simp add: inline_secret_finding_def)
    then show ?thesis by blast
  next
    assume "f \<in> set (scanValue val (env_path n key))"
    then show ?thesis by (simp add: scanValue_fixed)
  qed
qed

lemma scanCredentials_all_shape:
  assumes "f \<in> set (scanCredentials_all cfg n)"
  shows "fixed_title (title f) \<or>
    (\<exists>key. title f = ''Secret value inlined for '' @ key \<and>
       detail f = n @ ''.env.'' @ key @ '' contains a direct value instead of an env reference'')"
proof -
  from assms have "(\<exists>val path. f \<in> set (scanValue val path)) \<or>
      f \<in> set (scanEnvValues (env_of cfg) n) \<or>
      f \<in> set (scanPermissions (args_of cfg) (env_of cfg) n) \<or>
      f \<in> set (scanTransport cfg n)"
    by (auto simp: scanCredentials_all_def)
  then show ?thesis
    using scanValue_fixed scanEnvValues_shape scanPermissions_fixed scanTransport_fixed
    by blast
qed

lemma takeWhile_no_colon:
  "CHR '':'' \<notin> set t \<Longrightarrow> takeWhile (\<lambda>c. c \<noteq> CHR '':'') (t @ CHR '':'' # d) = t"
  by (induction t) auto

lemma key_fixed_fixed:
  assumes "fixed_title t1" "fixed_title t2" "t1 @ '':'' @ d1 = t2 @ '':'' @ d2"
  shows "t1 = t2 \<and> d1 = d2"
proof -
  have "takeWhile (\<lambda>c. c \<noteq> CHR '':'') (t1 @ CHR '':'' # d1) =
      takeWhile (\<lambda>c. c \<noteq> CHR '':'') (t2 @ CHR '':'' # d2)"
    using assms(3) by simp
  then have "t1 = t2"
    using assms(1,2) by (simp add: takeWhile_no_colon fixed_title_def)
  with assms(3) show ?thesis by simp
qed

lemma key_fixed_secret:
  assumes "fixed_title t1" "t1 @ '':'' @ d1 = (''Secret value inlined for '' @ k) @ '':'' @ d2"
  shows False
proof -
  let ?S = "''Secret value inlined for ''"
  have "takeWhile (\<lambda>c. c \<noteq> CHR '':'') (t1 @ CHR '':'' # d1) = t1"
    using assms(1) by (simp add: takeWhile_no_colon fixed_title_def)
  moreover have "takeWhile (\<lambda>c. c \<noteq> CHR '':'') ((?S @ k) @ CHR '':'' # d2) =
      ?S @ takeWhile (\<lambda>c. c \<noteq> CHR '':'') (k @ CHR '':'' # d2)"
    by simp
  ultimately have "t1 = ?S @ takeWhile (\<lambda>c. c \<noteq> CHR '':'') (k @ CHR '':'' # d2)"
    using assms(2) by simp
  then have "startsWith t1 ?S"
    by (simp add: startsWith_def)
  with assms(1) show False by (simp add: fixed_title_def)
qed

lemma key_secret_secret:
  assumes "(S @ k1) @ '':'' @ (n @ E @ k1 @ T) = (S @ k2) @ '':'' @ (n @ E @ k2 @ T)"
  shows "k1 = k2"
proof -
  from assms have "length ((S @ k1) @ '':'' @ (n @ E @ k1 @ T)) =
      length ((S @ k2) @ '':'' @ (n @ E @ k2 @ T))"
    by (rule arg_cong)
  then have "length k1 = length k2" by simp
  moreover from assms have "k1 @ ('':'' @ n @ E @ k1 @ T) = k2 @ ('':'' @ n @ E @ k2 @ T)"
    by simp
  ultimately show ?thesis using append_eq_append_conv [of k1 k2] by blast
qed

lemma scanCredentials_all_keys:
  assumes "x \<in> set (scanCredentials_all cfg n)" "y \<in> set (scanCredentials_all cfg n)"
    and "dedup_key x = dedup_key y"
  shows "dedup_pair x = dedup_pair y"
proof -
  let ?S = "''Secret value inlined for ''"
  let ?T = "'' contains a direct value instead of an env reference''"
  note sx = scanCredentials_all_shape [OF assms(1)]
  note sy = scanCredentials_all_shape [OF assms(2)]
  have k: "title x @ '':'' @ detail x = title y @ '':'' @ detail y"
    using assms(3) by (simp add: dedup_key_def)
  from sx show ?thesis
  proof
    assume fx: "fixed_title (title x)"
    from sy show ?thesis
    proof
      assume "fixed_title (title y)"
      from key_fixed_fixed [OF fx this k] show ?thesis by (simp add: dedup_pair_def)
    next
      assume "\<exists>key. title y = ?S @ key \<and> detail y = n @ ''.env.'' @ key @ ?T"
      then obtain key where "title y = ?S @ key" by blast
      with k have "title x @ '':'' @ detail x = (?S @ key) @ '':'' @ detail y" by simp
      from key_fixed_secret [OF fx this] show ?thesis ..
    qed
  next
    assume "\<exists>key. title x = ?S @ key \<and> detail x = n @ ''.env.'' @ key @ ?T"
    then obtain kx where kx: "title x = ?S @ kx" "detail x = n @ ''.env.'' @ kx @ ?T" by blast
    from sy show ?thesis
    proof
      assume fy: "fixed_title (title y)"
      from k kx have "title y @ '':'' @ detail y = (?S @ kx) @ '':'' @ detail x" by simp
      from key_fixed_secret [OF fy this] show ?thesis ..
    next
      assume "\<exists>key. title y = ?S @ key \<and> detail y = n @ ''.env.'' @ key @ ?T"
      then obtain ky where ky: "title y = ?S @ ky" "detail y = n @ ''.env.'' @ ky @ ?T" by blast
      have "(?S @ kx) @ '':'' @ (n @ ''.env.'' @ kx @ ?T) =
          (?S @ ky) @ '':'' @ (n @ ''.env.'' @ ky @ ?T)"
        using k unfolding kx ky .
      then have "kx = ky" by (rule key_secret_secret)
      then show ?thesis by (simp add: dedup_pair_def kx ky)
    qed
  qed
qed

text \<open>The rule families of \<open>scanConfig\<close> have titles that begin differently, and
  no family generates a pair twice outside the credential scan.\<close>

lemma title_tags_append: "title_tags t (xs @ ys) \<longleftrightarrow> title_tags t xs \<and> title_tags t ys"
  by (simp add: title_tags_def)

lemma title_tags_mono: "set t \<subseteq> set t' \<Longrightarrow> title_tags t xs \<Longrightarrow> title_tags t' xs"
  by (auto simp: title_tags_def list_all_iff)

lemma distinct_pairs_append:
  assumes "distinct (map dedup_pair xs)" "distinct (map dedup_pair ys)"
    and "title_tags t1 xs" "title_tags t2 ys" "set t1 \<inter> set t2 = {}"
  shows "distinct (map dedup_pair (xs @ ys))"
proof -
  have "set (map dedup_pair xs) \<inter> set (map dedup_pair ys) = {}"
  proof (rule ccontr)
    assume "set (map dedup_pair xs) \<inter> set (map dedup_pair ys) \<noteq> {}"
    then obtain q where q: "q \<in> set (map dedup_pair xs)" "q \<in> set (map dedup_pair ys)"
      by blast
    from q(1) obtain x where x: "x \<in> set xs" "q = dedup_pair x" by auto
    from q(2) obtain y where y: "y \<in> set ys" "q = dedup_pair y" by auto
    from x y have xy: "x \<in> set xs" "y \<in> set ys" "dedup_pair x = dedup_pair y"
      by simp_all
    from xy(3) have "take 4 (title x) = take 4 (title y)" by (simp add: dedup_pair_def)
    moreover have "take 4 (title x) \<in> set t1"
      using assms(3) xy(1) by (simp add: title_tags_def list_all_iff)
    moreover have "take 4 (title y) \<in> set t2"
      using assms(4) xy(2) by (simp add: title_tags_def list_all_iff)
    ultimately show False using assms(5) by auto
  qed
  with assms(1,2) show ?thesis by simp
qed

lemma tags_disjoint:
  "set tags_typosquat \<inter> set (tags_publisher @ tags_cve @ tags_credentials @ tags_issues) = {}"
  "set tags_publisher \<inter> set (tags_cve @ tags_credentials @ tags_issues) = {}"
  "set tags_cve \<inter> set (tags_credentials @ tags_issues) = {}"
  "set tags_credentials \<inter> set tags_issues = {}"
  by code_simp+

lemma typosquat_findings_tags:
  "title_tags tags_typosquat (typosquat_findings name p) \<and>
   distinct (map dedup_pair (typosquat_findings name p))"
  by (simp add: typosquat_findings_def typosquat_finding_def title_tags_def tags_typosquat_def
      split: option.splits)

lemma publisher_findings_tags:
  "title_tags tags_publisher (publisher_findings name p) \<and>
   distinct (map dedup_pair (publisher_findings name p))"
  by (simp add: publisher_findings_def title_tags_def tags_publisher_def)

lemma vulns_table:
  "list_all (\<lambda>(k, e).
      list_all (\<lambda>v. take 4 (v_id v @ '': '' @ v_title v) \<in> set tags_cve) (vulnerabilities e) \<and>
      distinct (map (\<lambda>v. v_id v @ '': '' @ v_title v) (vulnerabilities e))) KNOWN_VULNS"
  by code_simp

lemma cve_findings_tags:
  assumes "cve_findings name p = Inr fs"
  shows "title_tags tags_cve fs \<and> distinct (map dedup_pair fs)"
proof (cases "checkCVEs p")
  case (Inl e)
  with assms show ?thesis by (simp add: cve_findings_def)
next
  case (Inr r)
  with assms have fs: "fs = map (\<lambda>f. f\<lparr>server := name, package := Some p\<rparr>) (formatCVEFindings r name)"
    by (simp add: cve_findings_def)
  show ?thesis
  proof (cases r)
    case None
    with fs show ?thesis by (simp add: formatCVEFindings_def title_tags_def)
  next
    case (Some entry)
    with Inr have "map_of KNOWN_VULNS p = Some entry"
      by (auto simp: checkCVEs_def split: if_splits option.splits)
    then have "(p, entry) \<in> set KNOWN_VULNS" by (rule map_of_SomeD)
    with vulns_table have t:
      "list_all (\<lambda>v. take 4 (v_id v @ '': '' @ v_title v) \<in> set tags_cve) (vulnerabilities entry)"
      "distinct (map (\<lambda>v. v_id v @ '': '' @ v_title v) (vulnerabilities entry))"
      by (auto simp: list_all_iff)
    have titles: "map title fs = map (\<lambda>v. v_id v @ '': '' @ v_title v) (vulnerabilities entry)"
      by (simp add: fs Some formatCVEFindings_def cve_finding_def comp_def)
    have "list_all (\<lambda>t. take 4 t \<in> set tags_cve) (map title fs)"
      unfolding titles using t(1) by (simp add: list_all_iff)
    then have 1: "title_tags tags_cve fs"
      by (simp add: title_tags_def list_all_iff)
    have "distinct (map title fs)"
      unfolding titles by (rule t(2))
    then have "distinct (map (fst \<circ> dedup_pair) fs)"
      by (simp add: comp_def dedup_pair_def)
    then have "distinct (map fst (map dedup_pair fs))" by simp
    then have 2: "distinct (map dedup_pair fs)" by (simp only: distinct_map)
    from 1 2 show ?thesis ..
  qed
qed

lemma issue_findings_unfold:
  "issue_findings name p cfg =
     (if \<not> needsAuth (join_sp (args_of cfg)) then []
      else if env cfg = None \<or> env cfg = Some []
      then [\<lparr>server = name, package = p, ftype = ''missing_auth'', severity = ''medium'',
              title = ''No authentication configured'', detail = ''Server: '' @ name,
              advice = ''This server typically requires API keys or tokens. Ensure auth is configured via environment variables.'',
              fvalue = None\<rparr>]
      else []) @
     (if test True (str ''stdio'') (join_sp (args_of cfg)) \<and>
         test True (Alt (str ''0.0.0.0'') (Alt (str ''--host'') (str ''--port'')))
           (join_sp (args_of cfg))
      then [\<lparr>server = name, package = p, ftype = ''mixed_transport'', severity = ''medium'',
              title = ''Mixed transport indicators'', detail = ''Server: '' @ name,
              advice = ''Server config appears to mix stdio and network transport. Verify intended transport mode.'',
              fvalue = None\<rparr>]
      else [])"
  by (simp add: issue_findings_def CONFIG_ISSUES_def)

lemma issue_findings_cases:
  "\<exists>a b. issue_findings name p cfg = a @ b \<and>
     (a = [] \<or> (\<exists>f. a = [f] \<and> title f = ''No authentication configured'')) \<and>
     (b = [] \<or> (\<exists>f. b = [f] \<and> title f = ''Mixed transport indicators''))"
  by (subst issue_findings_unfold, rule exI, rule exI, rule conjI, rule refl) simp

lemma issue_findings_tags:
  "title_tags tags_issues (issue_findings name p cfg) \<and>
   distinct (map dedup_pair (issue_findings name p cfg))"
proof -
  from issue_findings_cases [of name p cfg] obtain a b where
    ab: "issue_findings name p cfg = a @ b"
      "a = [] \<or> (\<exists>f. a = [f] \<and> title f = ''No authentication configured'')"
      "b = [] \<or> (\<exists>f. b = [f] \<and> title f = ''Mixed transport indicators'')"
    by blast
  have ta: "title_tags [''No a''] a \<and> distinct (map dedup_pair a)"
    using ab(2) by (auto simp: title_tags_def)
  have tb: "title_tags [''Mixe''] b \<and> distinct (map dedup_pair b)"
    using ab(3) by (auto simp: title_tags_def)
  have d: "distinct (map dedup_pair (a @ b))"
    using ta tb by (intro distinct_pairs_append [of a b "[''No a'']" "[''Mixe'']"]) simp_all
  have "title_tags tags_issues a" "title_tags tags_issues b"
    using ta tb by (auto simp: title_tags_def list_all_iff tags_issues_def)
  with d show ?thesis by (simp add: ab(1) title_tags_append)
qed

lemma credential_tags_table:
  "list_all (\<lambda>rule. take 4 (r_type rule @ '' detected in config'') \<in> set tags_credentials)
     CREDENTIAL_PATTERNS"
  "list_all (\<lambda>rule. take 4 (r_type rule) \<in> set tags_credentials) DANGEROUS_PERMISSIONS"
  "take 4 ''Non-HTTPS URL detected'' \<in> set tags_credentials"
  "take 4 ''SSE transport without visible authentication'' \<in> set tags_credentials"
  "take 4 (''Secret value inlined for '' @ key) \<in> set tags_credentials"
  by code_simp+

lemma scanValue_tags: "f \<in> set (scanValue val path) \<Longrightarrow> take 4 (title f) \<in> set tags_credentials"
  using credential_tags_table(1)
  by (auto simp: scanValue_def credential_finding_def list_all_iff)

lemma scanCredentials_all_tags:
  assumes "f \<in> set (scanCredentials_all cfg n)"
  shows "take 4 (title f) \<in> set tags_credentials"
proof -
  from assms consider
    (v) val path where "f \<in> set (scanValue val path)"
    | (e) "f \<in> set (scanEnvValues (env_of cfg) n)"
    | (p) "f \<in> set (scanPermissions (args_of cfg) (env_of cfg) n)"
    | (t) "f \<in> set (scanTransport cfg n)"
    by (auto simp: scanCredentials_all_def)
  then show ?thesis
  proof cases
    case v
    then show ?thesis by (rule scanValue_tags)
  next
    case e
    then obtain key val where
      "f = inline_secret_finding n key val \<or> f \<in> set (scanValue val (env_path n key))"
      by (auto simp: scanEnvValues_def split: if_splits)
    then show ?thesis
      using credential_tags_table(5) scanValue_tags
      by (auto simp: inline_secret_finding_def)
  next
    case p
    then show ?thesis
      using credential_tags_table(2)
      by (auto simp: scanPermissions_def permission_finding_def list_all_iff Let_def)
  next
    case t
    then show ?thesis
      using credential_tags_table(3,4)
      by (auto simp: scanTransport_def Let_def split: if_splits)
  qed
qed

lemma tags_disjoint_groups:
  "set tags_typosquat \<inter> set tags_publisher = {}"
  "set (tags_typosquat @ tags_publisher) \<inter> set tags_cve = {}"
  "set (tags_typosquat @ tags_publisher @ tags_cve) \<inter> set (tags_credentials @ tags_issues) = {}"
  by code_simp+

lemma title_tags_left: "title_tags t xs \<Longrightarrow> title_tags (t @ t') xs"
  by (auto simp: title_tags_def list_all_iff)

lemma title_tags_right: "title_tags t' xs \<Longrightarrow> title_tags (t @ t') xs"
  by (auto simp: title_tags_def list_all_iff)

lemma pair_update [simp]: "dedup_pair (f\<lparr>server := n, package := p\<rparr>) = dedup_pair f"
  by (simp add: dedup_pair_def)

lemma map_pair_update:
  "map dedup_pair (map (\<lambda>f. f\<lparr>server := n, package := p\<rparr>) fs) = map dedup_pair fs"
  by (induction fs) simp_all

lemma title_tags_update:
  "title_tags t (map (\<lambda>f. f\<lparr>server := n, package := p\<rparr>) fs) = title_tags t fs"
  by (induction fs) (simp_all add: title_tags_def)

lemma head_findings:
  assumes "cve_findings name p = Inr cve"
  shows "title_tags (tags_typosquat @ tags_publisher @ tags_cve)
           (typosquat_findings name p @ publisher_findings name p @ cve) \<and>
         distinct (map dedup_pair (typosquat_findings name p @ publisher_findings name p @ cve))"
proof -
  let ?T = "typosquat_findings name p"
  let ?P = "publisher_findings name p"
  have ty: "title_tags tags_typosquat ?T" and tyd: "distinct (map dedup_pair ?T)"
    using typosquat_findings_tags [of name p] by blast+
  have pu: "title_tags tags_publisher ?P" and pud: "distinct (map dedup_pair ?P)"
    using publisher_findings_tags [of name p] by blast+
  have cv: "title_tags tags_cve cve" and cvd: "distinct (map dedup_pair cve)"
    using cve_findings_tags [OF assms] by blast+
  have tp: "distinct (map dedup_pair (?T @ ?P))"
    using tyd pud ty pu tags_disjoint_groups(1) by (rule distinct_pairs_append)
  have tpt: "title_tags (tags_typosquat @ tags_publisher) (?T @ ?P)"
    using ty pu by (simp only: title_tags_append) (blast intro: title_tags_left title_tags_right)
  have "distinct (map dedup_pair ((?T @ ?P) @ cve))"
    using tp cvd tpt cv tags_disjoint_groups(2) by (rule distinct_pairs_append)
  moreover have "title_tags ((tags_typosquat @ tags_publisher) @ tags_cve) ((?T @ ?P) @ cve)"
    using tpt cv by (simp only: title_tags_append) (blast intro: title_tags_left title_tags_right)
  ultimately show ?thesis by simp
qed

text \<open>The findings of a server are a head that the credential scan does not touch,
  the credential findings and the structural findings.\<close>

lemma server_findings_with_split:
  "\<exists>A. title_tags (tags_typosquat @ tags_publisher @ tags_cve) A \<and>
     distinct (map dedup_pair A) \<and>
     (\<forall>cr fs. server_findings_with cr name cfg = Inr fs \<longrightarrow>
        fs = A @ map (\<lambda>f. f\<lparr>server := name, package := extractPackageName cfg\<rparr>) (cr cfg name) @
             issue_findings name (extractPackageName cfg) cfg)"
proof -
  define named where "named =
    (case extractPackageName cfg of None \<Rightarrow> None | Some p \<Rightarrow> if p = [] then None else Some p)"
  show ?thesis
  proof (cases named)
    case None
    have "\<forall>cr fs. server_findings_with cr name cfg = Inr fs \<longrightarrow>
        fs = [] @ map (\<lambda>f. f\<lparr>server := name, package := extractPackageName cfg\<rparr>) (cr cfg name) @
             issue_findings name (extractPackageName cfg) cfg"
      using None by (auto simp: server_findings_with_def Let_def named_def)
    moreover have "title_tags (tags_typosquat @ tags_publisher @ tags_cve) []"
      by (simp add: title_tags_def)
    ultimately show ?thesis by (intro exI [of _ "[]"]) simp
  next
    case (Some p)
    show ?thesis
    proof (cases "cve_findings name p")
      case (Inl e)
      have "\<forall>cr fs. server_findings_with cr name cfg \<noteq> Inr fs"
        using Some Inl by (auto simp: server_findings_with_def Let_def named_def)
      moreover have "title_tags (tags_typosquat @ tags_publisher @ tags_cve) []"
        by (simp add: title_tags_def)
      ultimately show ?thesis by (intro exI [of _ "[]"]) simp
    next
      case (Inr cve)
      let ?A = "typosquat_findings name p @ publisher_findings name p @ cve"
      have "\<forall>cr fs. server_findings_with cr name cfg = Inr fs \<longrightarrow>
        fs = ?A @ map (\<lambda>f. f\<lparr>server := name, package := extractPackageName cfg\<rparr>) (cr cfg name) @
             issue_findings name (extractPackageName cfg) cfg"
        using Some Inr by (auto simp: server_findings_with_def Let_def named_def)
      with head_findings [OF Inr] show ?thesis by (intro exI [of _ ?A]) simp
    qed
  qed
qed

lemma find_append_eq:
  "find P (xs @ ys) = (case find P xs of None \<Rightarrow> find P ys | Some x \<Rightarrow> Some x)"
  by (induction xs) simp_all

lemma find_map_eq: "find P (map f xs) = map_option f (find (\<lambda>x. P (f x)) xs)"
  by (induction xs) simp_all

lemma count_distinct:
  "distinct (map g xs) \<Longrightarrow> length (filter (\<lambda>x. g x = q) xs) = (if q \<in> g ` set xs then 1 else 0)"
proof (induction xs)
  case Nil
  show ?case by simp
next
  case (Cons x xs)
  then have ih: "length (filter (\<lambda>x. g x = q) xs) = (if q \<in> g ` set xs then 1 else 0)"
    by simp
  from Cons.prems have nx: "g x \<notin> g ` set xs" by simp
  show ?case
  proof (cases "g x = q")
    case True
    with nx have "q \<notin> g ` set xs" by simp
    with True ih show ?thesis by simp
  next
    case False
    with ih show ?thesis by auto
  qed
qed

lemma serverFindings_distinct:
  assumes "serverFindings name cfg = Inr fs"
  shows "distinct (map dedup_pair fs)"
proof -
  let ?upd = "\<lambda>f. f\<lparr>server := name, package := extractPackageName cfg\<rparr>"
  let ?C = "map ?upd (scanCredentials cfg name)"
  let ?I = "issue_findings name (extractPackageName cfg) cfg"
  from server_findings_with_split [of name cfg] obtain A where
    A: "title_tags (tags_typosquat @ tags_publisher @ tags_cve) A" "distinct (map dedup_pair A)"
      "\<forall>cr fs. server_findings_with cr name cfg = Inr fs \<longrightarrow> fs = A @ map ?upd (cr cfg name) @ ?I"
    by blast
  from A(3) assms have fs: "fs = A @ ?C @ ?I"
    unfolding serverFindings_def by blast
  have "list_all (\<lambda>f. take 4 (title f) \<in> set tags_credentials) (scanCredentials cfg name)"
    unfolding list_all_iff scanCredentials_def
    using dedup_set_subset [of "[]" "scanCredentials_all cfg name"] scanCredentials_all_tags [of _ cfg name]
    by blast
  then have ct: "title_tags tags_credentials ?C"
    by (simp add: title_tags_update) (simp add: title_tags_def)
  have cd: "distinct (map dedup_pair ?C)"
    by (simp only: map_pair_update scanCredentials_def dedup_pairs_distinct)
  have it: "title_tags tags_issues ?I" and itd: "distinct (map dedup_pair ?I)"
    using issue_findings_tags [of name "extractPackageName cfg" cfg] by blast+
  have ci: "distinct (map dedup_pair (?C @ ?I))"
    using cd itd ct it tags_disjoint(4) by (rule distinct_pairs_append)
  have cit: "title_tags (tags_credentials @ tags_issues) (?C @ ?I)"
    using ct it by (simp only: title_tags_append) (blast intro: title_tags_left title_tags_right)
  have "distinct (map dedup_pair (A @ (?C @ ?I)))"
    using A(2) ci A(1) cit tags_disjoint_groups(3) by (rule distinct_pairs_append)
  then show ?thesis by (simp only: fs)
qed

lemma serverFindings_first:
  assumes "serverFindings name cfg = Inr fs" "generatedFindings name cfg = Inr gs"
  shows "subseq fs gs \<and> find (\<lambda>h. dedup_pair h = q) fs = find (\<lambda>h. dedup_pair h = q) gs"
proof -
  let ?upd = "\<lambda>f. f\<lparr>server := name, package := extractPackageName cfg\<rparr>"
  let ?all = "scanCredentials_all cfg name"
  let ?I = "issue_findings name (extractPackageName cfg) cfg"
  from server_findings_with_split [of name cfg] obtain A where
    A: "\<forall>cr fs. server_findings_with cr name cfg = Inr fs \<longrightarrow> fs = A @ map ?upd (cr cfg name) @ ?I"
    by blast
  from A assms(1) have fs: "fs = A @ map ?upd (dedup [] ?all) @ ?I"
    unfolding serverFindings_def scanCredentials_def [symmetric] by blast
  from A assms(2) have gs: "gs = A @ map ?upd ?all @ ?I"
    unfolding generatedFindings_def by blast
  have "subseq (map ?upd (dedup [] ?all)) (map ?upd ?all)"
    by (intro subseq_map dedup_subseq)
  then have s: "subseq fs gs"
    unfolding fs gs by (intro list_emb_append_mono) simp_all
  have "find (\<lambda>h. dedup_pair h = q) (dedup [] ?all) = find (\<lambda>h. dedup_pair h = q) ?all"
  proof (rule dedup_find)
    fix x assume "x \<in> set ?all" "dedup_pair x = q"
    show "dedup_key x \<notin> set []" by simp
  next
    fix x y assume "x \<in> set ?all" "y \<in> set ?all" "dedup_key x = dedup_key y" "dedup_pair x = q"
    then show "dedup_pair y = q"
      using scanCredentials_all_keys [of x cfg name y] by simp
  qed
  then have "find (\<lambda>h. dedup_pair h = q) (map ?upd (dedup [] ?all)) =
      find (\<lambda>h. dedup_pair h = q) (map ?upd ?all)"
    by (simp add: find_map_eq)
  then have "find (\<lambda>h. dedup_pair h = q) fs = find (\<lambda>h. dedup_pair h = q) gs"
    unfolding fs gs by (simp only: find_append_eq)
  with s show ?thesis ..
qed

lemma scanConfig_count:
  assumes "scanConfig servers = Inr allFindings"
  shows "length (filter (\<lambda>h. dedup_pair h = q) allFindings) =
     length (filter (\<lambda>(name, cfg).
        case serverFindings name cfg of Inl e \<Rightarrow> False | Inr fs \<Rightarrow> q \<in> dedup_pair ` set fs) servers)"
  using assms
proof (induction servers arbitrary: allFindings)
  case Nil
  then show ?case by simp
next
  case (Cons s servers)
  obtain name cfg where s: "s = (name, cfg)" by (cases s)
  from Cons.prems obtain fs rest where
    fs: "serverFindings name cfg = Inr fs" and rest: "scanConfig servers = Inr rest"
    and all: "allFindings = fs @ rest"
    by (auto simp: s split: sum.splits)
  have "length (filter (\<lambda>h. dedup_pair h = q) fs) = (if q \<in> dedup_pair ` set fs then 1 else 0)"
    using serverFindings_distinct [OF fs] by (rule count_distinct)
  with Cons.IH [OF rest] show ?case
    by (simp add: all s fs)
qed

text \<open>
  Claim C4.  \<open>generatedFindings\<close> is the list a server's rule paths generate, before
  \<open>scanCredentials\<close> filters its findings through the set \<open>seen\<close>;
  \<open>serverFindings\<close> is the list \<open>scanConfig\<close> pushes for the server.  The
  server's list is a sublist of the generated one in the same order, no two of its
  findings have the same (title, detail) pair, and the finding it holds for a pair is
  the first one generated with that pair: every later one is dropped.  Across servers
  nothing is dropped: the global list \<open>allFindings\<close> holds a pair once for each
  server whose list holds it.  The lookup \<open>checkCVEs\<close> can throw, so the lists
  are those of the runs that return.
\<close>

theorem intra_server_dedup:
  assumes "serverFindings name cfg = Inr fs"
    and "generatedFindings name cfg = Inr gs"
    and "scanConfig servers = Inr allFindings"
  shows "distinct (map dedup_pair fs) \<and>
    subseq fs gs \<and>
    find (\<lambda>h. dedup_pair h = q) fs = find (\<lambda>h. dedup_pair h = q) gs \<and>
    length (filter (\<lambda>h. dedup_pair h = q) allFindings) =
      length (filter (\<lambda>(n, c).
        case serverFindings n c of Inl e \<Rightarrow> False | Inr fs' \<Rightarrow> q \<in> dedup_pair ` set fs') servers)"
  using serverFindings_distinct [OF assms(1)] serverFindings_first [OF assms(1) assms(2), of q]
    scanConfig_count [OF assms(3), of q]
  by (intro conjI) blast+

text \<open>
  A server whose argument holds a PostgreSQL and a MySQL connection string: both rules
  generate the finding ``Database credentials detected in config'' at
  \<open>db.args[0]\<close>, and the server's list keeps the first of the two.  Two servers
  \<open>a\<close> and \<open>b\<close> that run the same unverified package: the global list holds
  the publisher finding twice.
\<close>

theorem intra_server_dedup_witness:
  "(let c = \<lparr>command = Some ''mcp-server-postgres'',
              args = Some [''postgres://u:p@h mysql://u:p@h''],
              env = None, transport = None\<rparr>;
        d = \<lparr>command = Some ''mcp-servr-github'', args = None, env = None, transport = None\<rparr>;
        q = (''Database credentials detected in config'', ''Found at: db.args[0]'');
        r = (''Unverified publisher for mcp-servr-github'', unknown_publisher_reason);
        fs = projr (serverFindings ''db'' c);
        gs = projr (generatedFindings ''db'' c);
        allFindings = projr (scanConfig [(''a'', d), (''b'', d)])
    in serverFindings ''db'' c = Inr fs \<and>
       generatedFindings ''db'' c = Inr gs \<and>
       scanConfig [(''a'', d), (''b'', d)] = Inr allFindings \<and>
       map dedup_pair gs =
         [(''MCP-2026-0019: SQL injection via tool parameter passthrough'',
           ''Affects db (mcp-server-postgres)''),
          (''MCP-2026-0020: Connection string exposed in tool metadata'',
           ''Affects db (mcp-server-postgres)''),
          (''MCP-2026-0021: No query allow-listing or scope restriction'',
           ''Affects db (mcp-server-postgres)''),
          q, q] \<and>
       map dedup_pair fs =
         [(''MCP-2026-0019: SQL injection via tool parameter passthrough'',
           ''Affects db (mcp-server-postgres)''),
          (''MCP-2026-0020: Connection string exposed in tool metadata'',
           ''Affects db (mcp-server-postgres)''),
          (''MCP-2026-0021: No query allow-listing or scope restriction'',
           ''Affects db (mcp-server-postgres)''),
          q] \<and>
       distinct (map dedup_pair fs) \<and>
       subseq fs gs \<and>
       find (\<lambda>h. dedup_pair h = q) fs = find (\<lambda>h. dedup_pair h = q) gs \<and>
       length (filter (\<lambda>h. dedup_pair h = r) allFindings) = 2)"
proof -
  define c where "c = \<lparr>command = Some ''mcp-server-postgres'',
      args = Some [''postgres://u:p@h mysql://u:p@h''],
      env = None, transport = None\<rparr>"
  define d where "d = \<lparr>command = Some ''mcp-servr-github'', args = None, env = None,
      transport = None\<rparr>"
  define q where "q = (''Database credentials detected in config'', ''Found at: db.args[0]'')"
  define r where "r = (''Unverified publisher for mcp-servr-github'', unknown_publisher_reason)"
  define fs where "fs = projr (serverFindings ''db'' c)"
  define gs where "gs = projr (generatedFindings ''db'' c)"
  define allFindings where "allFindings = projr (scanConfig [(''a'', d), (''b'', d)])"
  have g: "map_sum id (map dedup_pair) (generatedFindings ''db'' c) =
      Inr [(''MCP-2026-0019: SQL injection via tool parameter passthrough'',
           ''Affects db (mcp-server-postgres)''),
          (''MCP-2026-0020: Connection string exposed in tool metadata'',
           ''Affects db (mcp-server-postgres)''),
          (''MCP-2026-0021: No query allow-listing or scope restriction'',
           ''Affects db (mcp-server-postgres)''),
          q, q]"
    unfolding c_def q_def by code_simp
  have f: "map_sum id (map dedup_pair) (serverFindings ''db'' c) =
      Inr [(''MCP-2026-0019: SQL injection via tool parameter passthrough'',
           ''Affects db (mcp-server-postgres)''),
          (''MCP-2026-0020: Connection string exposed in tool metadata'',
           ''Affects db (mcp-server-postgres)''),
          (''MCP-2026-0021: No query allow-listing or scope restriction'',
           ''Affects db (mcp-server-postgres)''),
          q]"
    unfolding c_def q_def by code_simp
  have a: "\<not> isl (scanConfig [(''a'', d), (''b'', d)])"
    unfolding d_def by code_simp
  have 1: "serverFindings ''db'' c = Inr fs"
    using f unfolding fs_def by (cases "serverFindings ''db'' c") simp_all
  have 2: "generatedFindings ''db'' c = Inr gs"
    using g unfolding gs_def by (cases "generatedFindings ''db'' c") simp_all
  have 3: "scanConfig [(''a'', d), (''b'', d)] = Inr allFindings"
    using a unfolding allFindings_def by (cases "scanConfig [(''a'', d), (''b'', d)]") simp_all
  have 4: "map dedup_pair gs =
         [(''MCP-2026-0019: SQL injection via tool parameter passthrough'',
           ''Affects db (mcp-server-postgres)''),
          (''MCP-2026-0020: Connection string exposed in tool metadata'',
           ''Affects db (mcp-server-postgres)''),
          (''MCP-2026-0021: No query allow-listing or scope restriction'',
           ''Affects db (mcp-server-postgres)''),
          q, q]"
    using g unfolding 2 by simp
  have 5: "map dedup_pair fs =
         [(''MCP-2026-0019: SQL injection via tool parameter passthrough'',
           ''Affects db (mcp-server-postgres)''),
          (''MCP-2026-0020: Connection string exposed in tool metadata'',
           ''Affects db (mcp-server-postgres)''),
          (''MCP-2026-0021: No query allow-listing or scope restriction'',
           ''Affects db (mcp-server-postgres)''),
          q]"
    using f unfolding 1 by simp
  have 6: "length (filter (\<lambda>(n, c).
      case serverFindings n c of Inl e \<Rightarrow> False | Inr fs' \<Rightarrow> r \<in> dedup_pair ` set fs')
      [(''a'', d), (''b'', d)]) = 2"
    unfolding d_def r_def by code_simp
  note t = intra_server_dedup [OF 1 2 3, of q]
  note u = intra_server_dedup [OF 1 2 3, of r]
  from u 6 have 7: "length (filter (\<lambda>h. dedup_pair h = r) allFindings) = 2"
    by simp
  from t have 8: "distinct (map dedup_pair fs)" and 9: "subseq fs gs"
    and 10: "find (\<lambda>h. dedup_pair h = q) fs = find (\<lambda>h. dedup_pair h = q) gs"
    by blast+
  from 1 2 3 4 5 8 9 10 7 show ?thesis
    unfolding Let_def c_def d_def q_def r_def fs_def gs_def allFindings_def
    by (intro conjI)
qed

end
